theory Spec2Isabelle
  imports Complex_Main "HOL-Library.Char_ord" "HOL-Library.List_Lexorder"
    "HOL-Library.Product_Lexorder" "HOL-Library.Log_Nat"
begin

section \<open>Python strings\<close>

text \<open>
  A Python \<open>str\<close> is a sequence of code points. The model uses \<^typ>\<open>string\<close>, whose
  characters are the code points 0 to 255; the string methods below behave as Python's
  do on that range. Strings compare lexicographically by code point, which is the order
  \<open>sorted\<close> uses. The filter of the list widget is also given on strings of any code
  point, where \<open>str.lower\<close> is more than a map of characters.
\<close>

datatype error = IndexError | ValueError | KeyError | TypeError | AttributeError
  | JSONDecodeError | OSError | OverflowError

definition is_space :: "char \<Rightarrow> bool" where
  \<comment> \<open>\<open>str.isspace\<close> on one code point: TAB, LF, VT, FF, CR, FS, GS, RS, US, space,
      NEL and NBSP\<close>
  "is_space c \<longleftrightarrow> c \<in> set [CHR 0x09, CHR 0x0A, CHR 0x0B, CHR 0x0C, CHR 0x0D,
     CHR 0x1C, CHR 0x1D, CHR 0x1E, CHR 0x1F, CHR 0x20, CHR 0x85, CHR 0xA0]"

definition is_linebreak :: "char \<Rightarrow> bool" where
  \<comment> \<open>the line boundaries of \<open>str.splitlines\<close>: LF, VT, FF, CR, FS, GS, RS, NEL\<close>
  "is_linebreak c \<longleftrightarrow> c \<in> set [CHR 0x0A, CHR 0x0B, CHR 0x0C, CHR 0x0D,
     CHR 0x1C, CHR 0x1D, CHR 0x1E, CHR 0x85]"

fun splitlines_from :: "string \<Rightarrow> string \<Rightarrow> string list" where
  "splitlines_from cur [] = (if cur = [] then [] else [cur])"
| "splitlines_from cur [c] =
     (if is_linebreak c then [cur] else [cur @ [c]])"
| "splitlines_from cur (c # d # cs) =
     (if c = CHR 0x0D \<and> d = CHR 0x0A then cur # splitlines_from [] cs
      else if is_linebreak c then cur # splitlines_from [] (d # cs)
      else splitlines_from (cur @ [c]) (d # cs))"

definition splitlines :: "string \<Rightarrow> string list" where
  \<comment> \<open>\<open>s.splitlines()\<close>: CR LF is one boundary, and no empty line follows a final
      boundary\<close>
  "splitlines s = splitlines_from [] s"

definition strip :: "string \<Rightarrow> string" where
  \<comment> \<open>\<open>s.strip()\<close>\<close>
  "strip s = rev (dropWhile is_space (rev (dropWhile is_space s)))"

definition startswith :: "'a list \<Rightarrow> 'a list \<Rightarrow> bool" where
  \<comment> \<open>\<open>s.startswith(p)\<close>\<close>
  "startswith s p \<longleftrightarrow> take (length p) s = p"

definition rsplit1 :: "string \<Rightarrow> char \<Rightarrow> string list" where
  \<comment> \<open>\<open>s.rsplit(sep, 1)\<close> for a separator of one character: one split, at the
      rightmost separator; the whole string when there is none\<close>
  "rsplit1 s sep =
     (if sep \<in> set s
      then [rev (tl (dropWhile (\<lambda>c. c \<noteq> sep) (rev s))), rev (takeWhile (\<lambda>c. c \<noteq> sep) (rev s))]
      else [s])"

section \<open>Dictionaries in insertion order\<close>

text \<open>
  A Python \<open>dict\<close> keeps its keys in the order of their first insertion; the parser's
  result is read in that order, so a dictionary is an association list, each key once.
\<close>

type_synonym ('k, 'v) dict = "('k \<times> 'v) list"

definition dict_get :: "('k, 'v) dict \<Rightarrow> 'k \<Rightarrow> 'v option" where
  "dict_get d k = map_of d k"

fun dict_set :: "('k, 'v) dict \<Rightarrow> 'k \<Rightarrow> 'v \<Rightarrow> ('k, 'v) dict" where
  \<comment> \<open>\<open>d[k] = v\<close>: a present key keeps its place, a new key goes last\<close>
  "dict_set [] k v = [(k, v)]"
| "dict_set ((k', v') # d) k v =
     (if k' = k then (k, v) # d else (k', v') # dict_set d k v)"

definition dd_append :: "('k, 'v list) dict \<Rightarrow> 'k \<Rightarrow> 'v \<Rightarrow> ('k, 'v list) dict" where
  \<comment> \<open>\<open>d[k].append(v)\<close> on a \<open>defaultdict(list)\<close>\<close>
  "dd_append d k v =
     (case dict_get d k of
        None \<Rightarrow> dict_set d k [v]
      | Some vs \<Rightarrow> dict_set d k (vs @ [v]))"

section \<open>The query output parser (\<open>bazel.py\<close>)\<close>

type_synonym targets = "(string, string list) dict"

fun parse_lines :: "targets \<Rightarrow> string list \<Rightarrow> error + targets" where
  \<comment> \<open>the \<open>for line in output.splitlines()\<close> loop of \<open>parse_query_output\<close>\<close>
  "parse_lines targets [] = Inr targets"
| "parse_lines targets (raw # rest) =
     (let line = strip raw in
      if line = [] \<or> \<not> startswith line ''//'' then parse_lines targets rest
      else if CHR '':'' \<notin> set line then parse_lines targets rest
      else (case rsplit1 line CHR '':'' of
              [modul, rule] \<Rightarrow> parse_lines (dd_append targets modul rule) rest
            | _ \<Rightarrow> Inl ValueError))"

definition parse_query_output :: "string \<Rightarrow> error + targets" where
  "parse_query_output output =
     (case parse_lines [] (splitlines output) of
        Inl e \<Rightarrow> Inl e
      | Inr targets \<Rightarrow>
          Inr (fold (\<lambda>(modul, rules) d. dict_set d modul (sort rules)) (sort targets) []))"

subsection \<open>The parser as the specification words it\<close>

definition significant :: "string \<Rightarrow> bool" where
  \<comment> \<open>a trimmed line counts when it is non-empty, begins with \<open>//\<close> and contains \<open>:\<close>\<close>
  "significant l \<longleftrightarrow> l \<noteq> [] \<and> startswith l ''//'' \<and> CHR '':'' \<in> set l"

definition kept_lines :: "string \<Rightarrow> string list" where
  "kept_lines output = filter significant (map strip (splitlines output))"

fun split_last :: "char \<Rightarrow> string \<Rightarrow> (string \<times> string) option" where
  \<comment> \<open>the text before and after the last separator, when there is one\<close>
  "split_last sep [] = None"
| "split_last sep (c # cs) =
     (case split_last sep cs of
        Some (a, b) \<Rightarrow> Some (c # a, b)
      | None \<Rightarrow> if c = sep then Some ([], cs) else None)"

definition kept_pairs :: "string \<Rightarrow> (string \<times> string) list" where
  \<comment> \<open>the (namespace, item) pair of every kept line, in input order\<close>
  "kept_pairs output = List.map_filter (split_last CHR '':'') (kept_lines output)"

definition items_of :: "(string \<times> string) list \<Rightarrow> string \<Rightarrow> string list" where
  "items_of pairs ns = map snd (filter (\<lambda>p. fst p = ns) pairs)"

definition parse_spec :: "string \<Rightarrow> targets" where
  \<comment> \<open>namespaces in lexical order, each with its items in lexical order\<close>
  "parse_spec output =
     map (\<lambda>ns. (ns, sort (items_of (kept_pairs output) ns)))
       (sort (remdups (map fst (kept_pairs output))))"

definition index_invariant :: "targets \<Rightarrow> bool" where
  \<comment> \<open>the invariant the specification gives for a TargetIndex\<close>
  "index_invariant t \<longleftrightarrow>
     (\<forall>(ns, items) \<in> set t. items \<noteq> [] \<and> ns \<noteq> [] \<and> (\<forall>i \<in> set items. i \<noteq> []))"

section \<open>The fuzzy list widget (\<open>widgets/fuzzy_list.py\<close>)\<close>

definition lower_char :: "char \<Rightarrow> char" where
  \<comment> \<open>\<open>str.lower\<close> on one code point below 256: A to Z, and the capital letters
      0xC0 to 0xDE but for the multiplication sign 0xD7, move up by 32\<close>
  "lower_char c =
     (let n = of_char c :: nat in
      if (65 \<le> n \<and> n \<le> 90) \<or> (192 \<le> n \<and> n \<le> 222 \<and> n \<noteq> 215)
      then char_of (n + 32) else c)"

definition lower :: "string \<Rightarrow> string" where
  \<comment> \<open>\<open>s.lower()\<close>\<close>
  "lower s = map lower_char s"

fun split_from :: "string \<Rightarrow> string \<Rightarrow> string list" where
  "split_from cur [] = (if cur = [] then [] else [cur])"
| "split_from cur (c # cs) =
     (if is_space c
      then (if cur = [] then split_from [] cs else cur # split_from [] cs)
      else split_from (cur @ [c]) cs)"

definition split_ws :: "string \<Rightarrow> string list" where
  \<comment> \<open>\<open>s.split()\<close>: the maximal runs of characters that are not whitespace\<close>
  "split_ws s = split_from [] s"

fun contains :: "'a list \<Rightarrow> 'a list \<Rightarrow> bool" where
  \<comment> \<open>\<open>t in s\<close> for strings: \<open>t\<close> occurs in \<open>s\<close> as a substring\<close>
  "contains [] t = (t = [])"
| "contains (c # cs) t = (startswith (c # cs) t \<or> contains cs t)"

definition fuzzy_filter :: "string \<Rightarrow> string list \<Rightarrow> string list" where
  "fuzzy_filter query items =
     (if strip query = [] then items
      else let tokens = split_ws (lower query)
           in filter (\<lambda>item. list_all (\<lambda>t. contains (lower item) t) tokens) items)"

text \<open>
  The widget's state is the four fields \<open>_all_items\<close>, \<open>_filter\<close>, \<open>_cursor\<close> and
  \<open>_filtered\<close>; the cursor is a Python \<open>int\<close>. No caller changes a list it has handed
  over, so the lists are values. \<open>refresh()\<close> asks for a repaint and changes none of
  the fields.
\<close>

record fuzzy_list =
  all_items :: "string list"
  filter_text :: string
  cursor :: int
  filtered :: "string list"

definition init :: "string list \<Rightarrow> fuzzy_list" where
  \<comment> \<open>\<open>FuzzyList.__init__\<close>\<close>
  "init items = \<lparr>all_items = items, filter_text = [], cursor = 0, filtered = items\<rparr>"

definition set_filter :: "fuzzy_list \<Rightarrow> string \<Rightarrow> fuzzy_list" where
  "set_filter st query =
     st\<lparr>filter_text := query, filtered := fuzzy_filter query (all_items st), cursor := 0\<rparr>"

definition move_up :: "fuzzy_list \<Rightarrow> fuzzy_list" where
  "move_up st = (if cursor st > 0 then st\<lparr>cursor := cursor st - 1\<rparr> else st)"

definition move_down :: "fuzzy_list \<Rightarrow> fuzzy_list" where
  "move_down st =
     (if cursor st < int (length (filtered st)) - 1 then st\<lparr>cursor := cursor st + 1\<rparr> else st)"

definition update_items :: "fuzzy_list \<Rightarrow> string list \<Rightarrow> fuzzy_list" where
  "update_items st items =
     st\<lparr>all_items := items, filtered := fuzzy_filter (filter_text st) items, cursor := 0\<rparr>"

definition selected_item :: "fuzzy_list \<Rightarrow> string option" where
  "selected_item st =
     (if filtered st \<noteq> [] \<and> 0 \<le> cursor st \<and> cursor st < int (length (filtered st))
      then Some (filtered st ! nat (cursor st)) else None)"

datatype op = SetFilter string | MoveUp | MoveDown | UpdateItems "string list"

fun step :: "fuzzy_list \<Rightarrow> op \<Rightarrow> fuzzy_list" where
  "step st (SetFilter query) = set_filter st query"
| "step st MoveUp = move_up st"
| "step st MoveDown = move_down st"
| "step st (UpdateItems items) = update_items st items"

definition run :: "fuzzy_list \<Rightarrow> op list \<Rightarrow> fuzzy_list" where
  \<comment> \<open>the calls a screen makes on the widget, one after the other\<close>
  "run st ops = foldl step st ops"

definition cursor_invariant :: "fuzzy_list \<Rightarrow> bool" where
  "cursor_invariant st \<longleftrightarrow>
     (filtered st \<noteq> [] \<longrightarrow> 0 \<le> cursor st \<and> cursor st < int (length (filtered st)))"

definition cursor_bounds :: "fuzzy_list \<Rightarrow> bool" where
  \<comment> \<open>what every reachable state satisfies: the invariant, and a cursor that is not
      negative even over an empty view\<close>
  "cursor_bounds st \<longleftrightarrow> 0 \<le> cursor st \<and> cursor_invariant st"

subsection \<open>Rendering\<close>

definition py_index :: "'a list \<Rightarrow> int \<Rightarrow> error + 'a" where
  \<comment> \<open>\<open>xs[i]\<close>: an index from \<open>-len(xs)\<close> up to \<open>-1\<close> counts from the end, one out
      of range raises\<close>
  "py_index xs i =
     (if 0 \<le> i \<and> i < int (length xs) then Inr (xs ! nat i)
      else if - int (length xs) \<le> i \<and> i < 0 then Inr (xs ! nat (int (length xs) + i))
      else Inl IndexError)"

definition window :: "int \<Rightarrow> int \<Rightarrow> int \<Rightarrow> int \<times> int" where
  \<comment> \<open>the virtual scroll of \<open>render\<close>: \<open>start\<close> and \<open>end\<close> for \<open>n\<close> items\<close>
  "window n cur height =
     (let half = height div 2;
          start = max 0 (cur - half);
          end = min n (start + height);
          start = (if end - start < height then max 0 (end - height) else start)
      in (start, end))"

text \<open>
  The rendered \<open>Text\<close> is a sequence of lines; a line is the no-matches notice, a row of
  the list (its label, marked when it is the cursor's row) or an empty padding line.
\<close>

datatype line = NoMatches | Row bool string | Blank

fun render_rows :: "(string \<Rightarrow> string) \<Rightarrow> string list \<Rightarrow> int \<Rightarrow> int list \<Rightarrow> error + line list" where
  \<comment> \<open>the loop \<open>for i in range(start, end)\<close>\<close>
  "render_rows fmt items cur [] = Inr []"
| "render_rows fmt items cur (i # is) =
     (case py_index items i of
        Inl e \<Rightarrow> Inl e
      | Inr item \<Rightarrow>
          (case render_rows fmt items cur is of
             Inl e \<Rightarrow> Inl e
           | Inr rows \<Rightarrow> Inr (Row (i = cur) (fmt item) # rows)))"

definition render :: "fuzzy_list \<Rightarrow> (string \<Rightarrow> string) \<Rightarrow> int \<Rightarrow> error + line list" where
  \<comment> \<open>\<open>FuzzyList.render\<close> with the formatter \<open>_fmt\<close> and the widget's \<open>size.height\<close>\<close>
  "render st fmt size_height =
     (let height = max 1 size_height; items = filtered st in
      if items = [] then Inr [NoMatches]
      else let (start, end) = window (int (length items)) (cursor st) height in
        (case render_rows fmt items (cursor st) [start..end - 1] of
           Inl e \<Rightarrow> Inl e
         | Inr rows \<Rightarrow> Inr (rows @ replicate (nat (height - (end - start))) Blank)))"

subsection \<open>The filter on strings of any code point\<close>

text \<open>
  The items and the filter text of the widget are Python \<open>str\<close> values of any code
  point, and \<open>str.lower\<close> is not a map of single characters there: a code point has a
  full lower-case mapping of one to three code points, and capital sigma (U+03A3) becomes
  final sigma (U+03C2) or small sigma (U+03C3) by what stands around it. This is
  \<open>fuzzy_filter\<close> on strings as lists of code points. The three tables of the Unicode
  character database that \<open>str.lower\<close> reads are a parameter.
\<close>

record ucd =
  to_lower_full :: "nat \<Rightarrow> nat list"
  is_cased :: "nat \<Rightarrow> bool"
  is_case_ignorable :: "nat \<Rightarrow> bool"

definition is_space_u :: "nat \<Rightarrow> bool" where
  \<comment> \<open>\<open>str.isspace\<close> on one code point, for all of Unicode\<close>
  "is_space_u c \<longleftrightarrow>
     (0x09 \<le> c \<and> c \<le> 0x0D) \<or> (0x1C \<le> c \<and> c \<le> 0x20) \<or> c = 0x85 \<or> c = 0xA0
     \<or> c = 0x1680 \<or> (0x2000 \<le> c \<and> c \<le> 0x200A) \<or> c = 0x2028 \<or> c = 0x2029
     \<or> c = 0x202F \<or> c = 0x205F \<or> c = 0x3000"

definition strip_u :: "nat list \<Rightarrow> nat list" where
  "strip_u s = rev (dropWhile is_space_u (rev (dropWhile is_space_u s)))"

fun split_from_u :: "nat list \<Rightarrow> nat list \<Rightarrow> nat list list" where
  "split_from_u cur [] = (if cur = [] then [] else [cur])"
| "split_from_u cur (c # cs) =
     (if is_space_u c
      then (if cur = [] then split_from_u [] cs else cur # split_from_u [] cs)
      else split_from_u (cur @ [c]) cs)"

definition split_u :: "nat list \<Rightarrow> nat list list" where
  "split_u s = split_from_u [] s"

definition final_sigma :: "ucd \<Rightarrow> nat list \<Rightarrow> nat list \<Rightarrow> bool" where
  \<comment> \<open>whether a capital sigma is in final position: before it, past any case-ignorable
      code points, stands a cased one, and after it, past any case-ignorable code points,
      stands none. \<open>prev\<close> is the text before the sigma, nearest code point first.\<close>
  "final_sigma db prev rest =
     (case dropWhile (is_case_ignorable db) prev of
        [] \<Rightarrow> False
      | c # _ \<Rightarrow>
          is_cased db c \<and>
          (case dropWhile (is_case_ignorable db) rest of
             [] \<Rightarrow> True
           | d # _ \<Rightarrow> \<not> is_cased db d))"

fun lower_from :: "ucd \<Rightarrow> nat list \<Rightarrow> nat list \<Rightarrow> nat list" where
  "lower_from db prev [] = []"
| "lower_from db prev (c # rest) =
     (if c = 0x3A3 then [if final_sigma db prev rest then 0x3C2 else 0x3C3]
      else to_lower_full db c)
     @ lower_from db (c # prev) rest"

definition lower_u :: "ucd \<Rightarrow> nat list \<Rightarrow> nat list" where
  \<comment> \<open>\<open>s.lower()\<close>\<close>
  "lower_u db s = lower_from db [] s"

definition fuzzy_filter_u :: "ucd \<Rightarrow> nat list \<Rightarrow> nat list list \<Rightarrow> nat list list" where
  "fuzzy_filter_u db query items =
     (if strip_u query = [] then items
      else let tokens = split_u (lower_u db query)
           in filter (\<lambda>item. list_all (\<lambda>t. contains (lower_u db item) t) tokens) items)"

section \<open>Command builders (\<open>ssh.py\<close>, \<open>bazel.py\<close>)\<close>

fun join :: "string \<Rightarrow> string list \<Rightarrow> string" where
  \<comment> \<open>\<open>sep.join(xs)\<close>\<close>
  "join sep [] = []"
| "join sep [x] = x"
| "join sep (x # y # ys) = x @ sep @ join sep (y # ys)"

definition kind_expr :: "string list \<Rightarrow> error + string" where
  \<comment> \<open>\<open>"|".join(kinds) if len(kinds) > 1 else kinds[0]\<close>\<close>
  "kind_expr kinds =
     (if length kinds > 1 then Inr (join ''|'' kinds) else py_index kinds 0)"

definition local_query_cmd :: "string \<Rightarrow> string list \<Rightarrow> error + string list" where
  \<comment> \<open>the argument vector \<open>cmd\<close> that \<open>query_local\<close> hands to \<open>subprocess.run\<close>\<close>
  "local_query_cmd scope kinds =
     (case kind_expr kinds of
        Inl e \<Rightarrow> Inl e
      | Inr ke \<Rightarrow>
          Inr [''bazel'', ''query'',
               ''kind('' @ [CHR 0x27] @ ke @ [CHR 0x27] @ '', '' @ scope @ '')''])"

definition shell_safe :: "char \<Rightarrow> bool" where
  \<comment> \<open>the characters \<open>shlex.quote\<close> leaves alone: ASCII letters, digits and
      \<open>_ @ % + = : , . / -\<close>\<close>
  "shell_safe c \<longleftrightarrow>
     (let n = of_char c :: nat in
      (48 \<le> n \<and> n \<le> 57) \<or> (65 \<le> n \<and> n \<le> 90) \<or> (97 \<le> n \<and> n \<le> 122)
      \<or> c \<in> set ''_@%+=:,./-'')"

definition shlex_quote :: "string \<Rightarrow> string" where
  \<comment> \<open>Python's \<open>shlex.quote\<close>: an empty string becomes \<open>''\<close>, a string of safe
      characters stays, any other is put in single quotes with each single quote inside
      written \<open>'"'"'\<close>\<close>
  "shlex_quote s =
     (if s = [] then [CHR 0x27, CHR 0x27]
      else if list_all shell_safe s then s
      else [CHR 0x27]
        @ concat (map (\<lambda>c. if c = CHR 0x27
                             then [CHR 0x27, CHR 0x22, CHR 0x27, CHR 0x22, CHR 0x27]
                             else [c]) s)
        @ [CHR 0x27])"

record ssh_config =
  host :: string
  remote_dir :: string

definition build_query_cmd :: "ssh_config \<Rightarrow> string \<Rightarrow> string list \<Rightarrow> error + string list" where
  \<comment> \<open>\<open>SSHConfig.build_query_cmd\<close>\<close>
  "build_query_cmd cfg scope kinds =
     (case kind_expr kinds of
        Inl e \<Rightarrow> Inl e
      | Inr ke \<Rightarrow>
          Inr [''ssh'', host cfg,
               ''cd '' @ shlex_quote (remote_dir cfg) @ '' && ''
               @ ''bazel query '' @ [CHR 0x22] @ ''kind('' @ [CHR 0x27] @ ke @ [CHR 0x27]
               @ '', '' @ scope @ '')'' @ [CHR 0x22]])"

definition kind_query :: "string list \<Rightarrow> string \<Rightarrow> string" where
  \<comment> \<open>the query expression as the specification writes it,
      \<open>kind('<k1>|...|<kN>', <scope>)\<close>: each kind but the last is followed by \<open>|\<close>\<close>
  "kind_query kinds scope =
     ''kind('' @ [CHR 0x27] @ concat (map (\<lambda>k. k @ ''|'') (butlast kinds)) @ last kinds
     @ [CHR 0x27] @ '', '' @ scope @ '')''"

section \<open>The disk cache (\<open>bazel.py\<close>)\<close>

text \<open>
  A cache file holds JSON. Numbers are exact rationals here: the clock \<open>time.time()\<close>
  and the timestamps are finite numbers, and their difference is taken exactly. A file
  is modelled by what \<open>json.loads(path.read_text())\<close> makes of it: it raises, or it
  gives a value; \<open>json.dumps\<close> of a value with string keys writes a text that reads back
  as the same value. The read is given a second time further down, with doubles in place
  of exact numbers and with a directory that may be impossible to make.
\<close>

datatype json = JNull | JBool bool | JNum rat | JStr string | JArr "json list"
  | JObj "(string \<times> json) list"

datatype file_content = Undecodable | Json json

text \<open>
  The file system as the cache sees it: whether \<open>_CACHE_DIR\<close> exists, the files in it by
  name, and the names that refuse a write (\<open>write_text\<close> raises \<open>OSError\<close> there).
  \<open>mkdir(parents=True, exist_ok=True)\<close> and \<open>unlink(missing_ok=True)\<close> succeed.
\<close>

record fs =
  cache_dir_exists :: bool
  files :: "string \<rightharpoonup> file_content"
  write_protected :: "string \<Rightarrow> bool"

definition fresh_fs :: fs where
  \<comment> \<open>no cache directory, no file, nothing write-protected\<close>
  "fresh_fs = \<lparr>cache_dir_exists = False, files = Map.empty, write_protected = (\<lambda>name. False)\<rparr>"

definition CACHE_VERSION :: int where
  "CACHE_VERSION = 1"

definition host_or_local :: "string option \<Rightarrow> string" where
  \<comment> \<open>\<open>host or 'local'\<close>: \<open>None\<close> and the empty string are falsy\<close>
  "host_or_local h = (case h of None \<Rightarrow> ''local'' | Some s \<Rightarrow> if s = [] then ''local'' else s)"

definition cache_key :: "(string \<Rightarrow> string) \<Rightarrow> string option \<Rightarrow> string \<Rightarrow> string list \<Rightarrow> string" where
  \<comment> \<open>\<open>_cache_key\<close>; \<open>sha1_hex\<close> stands for \<open>hashlib.sha1(raw.encode()).hexdigest()\<close>\<close>
  "cache_key sha1_hex h scope kinds =
     (let kinds_str = join '','' (sort kinds);
          raw = host_or_local h @ '':'' @ scope @ '':'' @ kinds_str
      in take 16 (sha1_hex raw))"

definition cache_file :: "(string \<Rightarrow> string) \<Rightarrow> string option \<Rightarrow> string \<Rightarrow> string list \<Rightarrow> string" where
  \<comment> \<open>the name of the cache file in \<open>_CACHE_DIR\<close>\<close>
  "cache_file sha1_hex h scope kinds = cache_key sha1_hex h scope kinds @ ''.json''"

definition cache_path :: "(string \<Rightarrow> string) \<Rightarrow> fs \<Rightarrow> string option \<Rightarrow> string \<Rightarrow> string list \<Rightarrow> fs \<times> string" where
  \<comment> \<open>\<open>_cache_path\<close>: makes the directory, then returns the path\<close>
  "cache_path sha1_hex s h scope kinds =
     (s\<lparr>cache_dir_exists := True\<rparr>, cache_file sha1_hex h scope kinds)"

definition json_eq_int :: "json \<Rightarrow> int \<Rightarrow> bool" where
  \<comment> \<open>Python's \<open>==\<close> between a decoded value and an \<open>int\<close>: numbers compare by value
      and \<open>True\<close>, \<open>False\<close> are 1 and 0\<close>
  "json_eq_int v n =
     (case v of JNum r \<Rightarrow> r = of_int n | JBool b \<Rightarrow> (if b then 1 else 0) = n | _ \<Rightarrow> False)"

definition json_number :: "json \<Rightarrow> error + rat" where
  \<comment> \<open>a decoded value as an operand of \<open>-\<close> with a float\<close>
  "json_number v =
     (case v of JNum r \<Rightarrow> Inr r | JBool b \<Rightarrow> Inr (if b then 1 else 0) | _ \<Rightarrow> Inl TypeError)"

record cache_entry =
  entry_targets :: json
  entry_timestamp :: json

definition load_try :: "rat \<Rightarrow> int \<Rightarrow> file_content \<Rightarrow> error + cache_entry option" where
  \<comment> \<open>the body of the \<open>try\<close> in \<open>load_cache\<close>; \<open>now\<close> is \<open>time.time()\<close>\<close>
  "load_try now ttl_seconds content =
     (case content of
        Undecodable \<Rightarrow> Inl JSONDecodeError
      | Json (JObj data) \<Rightarrow>
          (if \<not> (case map_of data ''version'' of
                     None \<Rightarrow> False
                   | Some v \<Rightarrow> json_eq_int v CACHE_VERSION)
           then Inr None
           else (case map_of data ''timestamp'' of
                   None \<Rightarrow> Inl KeyError
                 | Some ts \<Rightarrow>
                     (case json_number ts of
                        Inl e \<Rightarrow> Inl e
                      | Inr t \<Rightarrow>
                          (let age = now - t in
                           if age > of_int ttl_seconds then Inr None
                           else (case map_of data ''targets'' of
                                   None \<Rightarrow> Inl KeyError
                                 | Some tg \<Rightarrow>
                                     Inr (Some \<lparr>entry_targets = tg, entry_timestamp = ts\<rparr>))))))
      | Json _ \<Rightarrow> Inl AttributeError)"

definition load_cache :: "(string \<Rightarrow> string) \<Rightarrow> fs \<Rightarrow> rat \<Rightarrow> string option \<Rightarrow> string \<Rightarrow> string list \<Rightarrow> int
    \<Rightarrow> fs \<times> cache_entry option" where
  "load_cache sha1_hex s now h scope kinds ttl_seconds =
     (if ttl_seconds \<le> 0 then (s, None)
      else let (s', path) = cache_path sha1_hex s h scope kinds in
        (case files s' path of
           None \<Rightarrow> (s', None)
         | Some content \<Rightarrow>
             (case load_try now ttl_seconds content of
                Inl e \<Rightarrow> (s', None)
              | Inr r \<Rightarrow> (s', r))))"

definition json_of_targets :: "targets \<Rightarrow> json" where
  \<comment> \<open>a \<open>dict[str, list[str]]\<close> as \<open>json.dumps\<close> writes it\<close>
  "json_of_targets t = JObj (map (\<lambda>(ns, items). (ns, JArr (map JStr items))) t)"

definition write_text :: "fs \<Rightarrow> string \<Rightarrow> file_content \<Rightarrow> error + fs" where
  "write_text s path content =
     (if write_protected s path then Inl OSError
      else Inr (s\<lparr>files := (files s)(path \<mapsto> content)\<rparr>))"

definition save_cache :: "(string \<Rightarrow> string) \<Rightarrow> fs \<Rightarrow> rat \<Rightarrow> string option \<Rightarrow> string \<Rightarrow> string list \<Rightarrow> targets
    \<Rightarrow> fs" where
  "save_cache sha1_hex s now h scope kinds t =
     (let (s', path) = cache_path sha1_hex s h scope kinds in
      case write_text s' path
             (Json (JObj [(''version'', JNum (of_int CACHE_VERSION)),
                          (''host'', JStr (host_or_local h)),
                          (''scope'', JStr scope),
                          (''kinds'', JArr (map JStr kinds)),
                          (''timestamp'', JNum now),
                          (''targets'', json_of_targets t)])) of
        Inl e \<Rightarrow> s'
      | Inr s'' \<Rightarrow> s'')"

definition bust_cache :: "(string \<Rightarrow> string) \<Rightarrow> fs \<Rightarrow> string option \<Rightarrow> string \<Rightarrow> string list \<Rightarrow> fs" where
  "bust_cache sha1_hex s h scope kinds =
     (let (s', path) = cache_path sha1_hex s h scope kinds
      in s'\<lparr>files := (files s')(path := None)\<rparr>)"

subsection \<open>The read with a directory that may not be makeable, and with doubles\<close>

text \<open>
  The definitions above take \<open>_CACHE_DIR\<close> to be a directory that can be made, and take
  the difference of two times exactly. Here the read is given without either
  simplification. \<open>mkdir\<close> raises an \<open>OSError\<close> when the directory is absent and cannot be
  made (a parent is a regular file, or may not be written); \<open>load_cache\<close> calls
  \<open>_cache_path\<close> before its \<open>try\<close>. A decoded number is an \<open>int\<close> or a \<open>float\<close>; a
  \<open>float\<close> is an IEEE 754 double, and \<open>json.loads\<close> also gives the doubles that are not
  numbers. \<open>float - int\<close> converts the \<open>int\<close>, which raises \<open>OverflowError\<close> when it is
  too large, and the difference of two doubles is rounded to the nearest double.
\<close>

datatype pyfloat = Finite rat | PosInf | NegInf | NaN

definition pow2 :: "int \<Rightarrow> rat" where
  "pow2 k = (if 0 \<le> k then 2 ^ nat k else 1 / 2 ^ nat (- k))"

definition binade :: "rat \<Rightarrow> int" where
  \<comment> \<open>for \<open>a > 0\<close> the exponent \<open>e\<close> with \<open>2^e \<le> a < 2^(e+1)\<close>\<close>
  "binade a =
     (let (n, d) = quotient_of a; k = bitlen n - bitlen d
      in if pow2 k \<le> a then k else k - 1)"

definition round_half_even :: "rat \<Rightarrow> int" where
  "round_half_even q =
     (let f = \<lfloor>q\<rfloor>; r = q - of_int f
      in if r < 1 / 2 then f else if 1 / 2 < r then f + 1 else if even f then f else f + 1)"

definition round64 :: "rat \<Rightarrow> pyfloat" where
  \<comment> \<open>the double nearest to an exact value, ties to the even significand: 53 bits
      from \<open>2^-1022\<close> on, multiples of \<open>2^-1074\<close> below, an infinity from \<open>2^1024\<close> on\<close>
  "round64 x =
     (if x = 0 then Finite 0
      else let a = \<bar>x\<bar>;
               q = max (binade a - 52) (- 1074);
               v = of_int (round_half_even (a / pow2 q)) * pow2 q
           in if pow2 1024 \<le> v then (if 0 < x then PosInf else NegInf)
              else Finite (if 0 < x then v else - v))"

fun float_sub :: "pyfloat \<Rightarrow> pyfloat \<Rightarrow> pyfloat" where
  \<comment> \<open>\<open>a - b\<close> on doubles\<close>
  "float_sub (Finite a) (Finite b) = round64 (a - b)"
| "float_sub NaN b = NaN"
| "float_sub a NaN = NaN"
| "float_sub PosInf PosInf = NaN"
| "float_sub NegInf NegInf = NaN"
| "float_sub PosInf b = PosInf"
| "float_sub NegInf b = NegInf"
| "float_sub (Finite a) PosInf = NegInf"
| "float_sub (Finite a) NegInf = PosInf"

definition int_to_float :: "int \<Rightarrow> error + pyfloat" where
  \<comment> \<open>the conversion of an \<open>int\<close> operand: correctly rounded, or \<open>OverflowError\<close>\<close>
  "int_to_float n =
     (case round64 (of_int n) of Finite r \<Rightarrow> Inr (Finite r) | _ \<Rightarrow> Inl OverflowError)"

fun float_gt_int :: "pyfloat \<Rightarrow> int \<Rightarrow> bool" where
  \<comment> \<open>\<open>a > n\<close> for a double and an \<open>int\<close>: exact, and false for a NaN\<close>
  "float_gt_int (Finite a) n = (of_int n < a)"
| "float_gt_int PosInf n = True"
| "float_gt_int NegInf n = False"
| "float_gt_int NaN n = False"

datatype pyvalue = PyNone | PyBool bool | PyInt int | PyFloat pyfloat | PyStr string
  | PyList "pyvalue list" | PyDict "(string \<times> pyvalue) list"

datatype decoded = Unreadable | Loads pyvalue

text \<open>
  A disk: whether \<open>_CACHE_DIR\<close> is there, whether it cannot be made when it is not, and
  for each file name in it what \<open>json.loads(path.read_text())\<close> does.
\<close>

record disk =
  dir_present :: bool
  dir_blocked :: bool
  stored :: "string \<rightharpoonup> decoded"

definition mkdir :: "disk \<Rightarrow> error + disk" where
  \<comment> \<open>\<open>_CACHE_DIR.mkdir(parents=True, exist_ok=True)\<close>\<close>
  "mkdir d =
     (if dir_present d then Inr d
      else if dir_blocked d then Inl OSError
      else Inr (d\<lparr>dir_present := True\<rparr>))"

definition cache_path_io :: "(string \<Rightarrow> string) \<Rightarrow> disk \<Rightarrow> string option \<Rightarrow> string \<Rightarrow> string list
    \<Rightarrow> error + disk \<times> string" where
  \<comment> \<open>\<open>_cache_path\<close>\<close>
  "cache_path_io sha1_hex d h scope kinds =
     (case mkdir d of
        Inl e \<Rightarrow> Inl e
      | Inr d' \<Rightarrow> Inr (d', cache_file sha1_hex h scope kinds))"

definition differs_from_int :: "pyvalue option \<Rightarrow> int \<Rightarrow> bool" where
  \<comment> \<open>\<open>data.get(key) != n\<close>: an absent key gives \<open>None\<close>; numbers compare by value and
      \<open>True\<close>, \<open>False\<close> are 1 and 0\<close>
  "differs_from_int v n =
     (case v of
        Some (PyInt m) \<Rightarrow> m \<noteq> n
      | Some (PyBool b) \<Rightarrow> (if b then 1 else 0) \<noteq> n
      | Some (PyFloat (Finite a)) \<Rightarrow> a \<noteq> of_int n
      | _ \<Rightarrow> True)"

definition subtrahend :: "pyvalue \<Rightarrow> error + pyfloat" where
  \<comment> \<open>the right operand of \<open>float - x\<close> as a double\<close>
  "subtrahend v =
     (case v of
        PyFloat a \<Rightarrow> Inr a
      | PyInt n \<Rightarrow> int_to_float n
      | PyBool b \<Rightarrow> int_to_float (if b then 1 else 0)
      | _ \<Rightarrow> Inl TypeError)"

record loaded_entry =
  loaded_targets :: pyvalue
  loaded_timestamp :: pyvalue

definition load_try_io :: "pyfloat \<Rightarrow> int \<Rightarrow> decoded \<Rightarrow> error + loaded_entry option" where
  \<comment> \<open>the body of the \<open>try\<close> in \<open>load_cache\<close>; \<open>now\<close> is \<open>time.time()\<close>\<close>
  "load_try_io now ttl_seconds content =
     (case content of
        Unreadable \<Rightarrow> Inl JSONDecodeError
      | Loads (PyDict data) \<Rightarrow>
          (if differs_from_int (map_of data ''version'') CACHE_VERSION then Inr None
           else (case map_of data ''timestamp'' of
                   None \<Rightarrow> Inl KeyError
                 | Some ts \<Rightarrow>
                     (case subtrahend ts of
                        Inl e \<Rightarrow> Inl e
                      | Inr t \<Rightarrow>
                          (let age = float_sub now t in
                           if float_gt_int age ttl_seconds then Inr None
                           else (case map_of data ''targets'' of
                                   None \<Rightarrow> Inl KeyError
                                 | Some tg \<Rightarrow>
                                     Inr (Some \<lparr>loaded_targets = tg,
                                                 loaded_timestamp = ts\<rparr>))))))
      | Loads _ \<Rightarrow> Inl AttributeError)"

definition load_cache_io :: "(string \<Rightarrow> string) \<Rightarrow> disk \<Rightarrow> pyfloat \<Rightarrow> string option \<Rightarrow> string
    \<Rightarrow> string list \<Rightarrow> int \<Rightarrow> error + disk \<times> loaded_entry option" where
  \<comment> \<open>\<open>load_cache\<close>: \<open>Inl\<close> is an exception that leaves the function\<close>
  "load_cache_io sha1_hex d now h scope kinds ttl_seconds =
     (if ttl_seconds \<le> 0 then Inr (d, None)
      else case cache_path_io sha1_hex d h scope kinds of
             Inl e \<Rightarrow> Inl e
           | Inr (d', path) \<Rightarrow>
               (case stored d' path of
                  None \<Rightarrow> Inr (d', None)
                | Some content \<Rightarrow>
                    (case load_try_io now ttl_seconds content of
                       Inl e \<Rightarrow> Inr (d', None)
                     | Inr r \<Rightarrow> Inr (d', r))))"

section \<open>Properties of the parser\<close>

lemma split_last_None: "split_last sep s = None \<longleftrightarrow> sep \<notin> set s"
  by (induction s) (auto split: option.splits)

lemma split_last_Some:
  "split_last sep s = Some (a, b) \<longleftrightarrow> s = a @ sep # b \<and> sep \<notin> set b"
proof (induction s arbitrary: a b)
  case Nil
  then show ?case by simp
next
  case (Cons c cs)
  show ?case
  proof (cases "split_last sep cs")
    case None
    then have "sep \<notin> set cs" by (simp add: split_last_None)
    with None show ?thesis
      by (cases a) (auto simp: Cons_eq_append_conv)
  next
    case (Some p)
    obtain a' b' where p: "p = (a', b')" by (cases p)
    with Some Cons.IH[of a' b'] have cs: "cs = a' @ sep # b'" "sep \<notin> set b'" by auto
    show ?thesis
    proof
      assume "split_last sep (c # cs) = Some (a, b)"
      with Some p have "a = c # a'" "b = b'" by auto
      with cs show "c # cs = a @ sep # b \<and> sep \<notin> set b" by simp
    next
      assume r: "c # cs = a @ sep # b \<and> sep \<notin> set b"
      have "a \<noteq> []"
      proof
        assume "a = []"
        with r have "cs = b" by simp
        with r cs show False by auto
      qed
      then obtain a'' where a: "a = c # a''" using r by (cases a) auto
      with r have "cs = a'' @ sep # b" by simp
      with r Cons.IH[of a'' b] have "split_last sep cs = Some (a'', b)" by simp
      with a show "split_last sep (c # cs) = Some (a, b)" by simp
    qed
  qed
qed

lemma rsplit1_split_last:
  "split_last sep s = Some (a, b) \<Longrightarrow> rsplit1 s sep = [a, b]"
proof -
  assume "split_last sep s = Some (a, b)"
  then have s: "s = a @ sep # b" and b: "sep \<notin> set b"
    by (simp_all add: split_last_Some)
  have rs: "rev s = rev b @ sep # rev a" using s by simp
  have t: "takeWhile (\<lambda>c. c \<noteq> sep) (rev s) = rev b"
    unfolding rs using b by (subst takeWhile_append2) auto
  have d: "dropWhile (\<lambda>c. c \<noteq> sep) (rev s) = sep # rev a"
    unfolding rs using b by (subst dropWhile_append2) auto
  have "sep \<in> set s" using s by simp
  then show ?thesis unfolding rsplit1_def t d by simp
qed

lemma parse_lines_fold:
  "parse_lines acc ls =
     Inr (fold (\<lambda>p d. dd_append d (fst p) (snd p))
            (List.map_filter (split_last CHR '':'') (filter significant (map strip ls))) acc)"
proof (induction ls arbitrary: acc)
  case Nil
  show ?case by (simp add: map_filter_simps)
next
  case (Cons raw rest)
  show ?case
  proof (cases "significant (strip raw)")
    case False
    then show ?thesis
      using Cons.IH[of acc] by (auto simp: significant_def Let_def)
  next
    case True
    then have "split_last CHR '':'' (strip raw) \<noteq> None"
      by (simp add: split_last_None significant_def)
    then obtain a b where ab: "split_last CHR '':'' (strip raw) = Some (a, b)"
      by auto
    then have r: "rsplit1 (strip raw) CHR '':'' = [a, b]"
      by (rule rsplit1_split_last)
    from True have g: "strip raw \<noteq> []" "startswith (strip raw) ''//''"
      "CHR '':'' \<in> set (strip raw)"
      by (simp_all add: significant_def)
    have "parse_lines acc (raw # rest) = parse_lines (dd_append acc a b) rest"
      using g r by (simp add: Let_def)
    also have "\<dots> = Inr (fold (\<lambda>p d. dd_append d (fst p) (snd p))
            (List.map_filter (split_last CHR '':'') (filter significant (map strip rest)))
            (dd_append acc a b))"
      by (rule Cons.IH)
    finally show ?thesis using True ab by (simp add: map_filter_simps)
  qed
qed

lemma map_of_dict_set: "map_of (dict_set d k v) = (map_of d)(k \<mapsto> v)"
  by (induction d) (auto simp: fun_eq_iff)

lemma keys_dict_set: "fst ` set (dict_set d k v) = insert k (fst ` set d)"
proof (induction d)
  case Nil
  show ?case by simp
next
  case (Cons p d)
  obtain k' v' where p: "p = (k', v')" by (cases p)
  show ?case using Cons.IH by (cases "k' = k") (simp_all add: p insert_commute)
qed

lemma dict_set_new: "k \<notin> fst ` set d \<Longrightarrow> dict_set d k v = d @ [(k, v)]"
  by (induction d) auto

lemma distinct_dict_set:
  "distinct (map fst d) \<Longrightarrow> distinct (map fst (dict_set d k v))"
proof (induction d)
  case Nil
  show ?case by simp
next
  case (Cons p d)
  obtain k' v' where p: "p = (k', v')" by (cases p)
  show ?case
  proof (cases "k' = k")
    case True
    with Cons.prems p show ?thesis by simp
  next
    case False
    have "k' \<notin> fst ` set (dict_set d k v)"
      using Cons.prems p False by (simp add: keys_dict_set)
    with Cons p False show ?thesis by simp
  qed
qed

lemma map_of_dd_append:
  "map_of (dd_append d k v) =
     (map_of d)(k \<mapsto> (case map_of d k of None \<Rightarrow> [] | Some vs \<Rightarrow> vs) @ [v])"
  by (simp add: dd_append_def dict_get_def map_of_dict_set split: option.splits)

lemma keys_dd_append: "fst ` set (dd_append d k v) = insert k (fst ` set d)"
  by (simp add: dd_append_def keys_dict_set split: option.splits)

lemma distinct_dd_append:
  "distinct (map fst d) \<Longrightarrow> distinct (map fst (dd_append d k v))"
  by (simp add: dd_append_def distinct_dict_set split: option.splits)

lemma group_props:
  assumes "distinct (map fst acc)"
  shows "distinct (map fst (fold (\<lambda>p d. dd_append d (fst p) (snd p)) pairs acc))"
    and "fst ` set (fold (\<lambda>p d. dd_append d (fst p) (snd p)) pairs acc) =
           fst ` set acc \<union> fst ` set pairs"
    and "map_of (fold (\<lambda>p d. dd_append d (fst p) (snd p)) pairs acc) k =
           (if k \<in> fst ` set acc \<union> fst ` set pairs
            then Some ((case map_of acc k of None \<Rightarrow> [] | Some vs \<Rightarrow> vs) @ items_of pairs k)
            else None)"
  using assms
proof (induction pairs arbitrary: acc)
  case Nil
  {
    case 1 then show ?case by simp
  next
    case 2 show ?case by simp
  next
    case 3 show ?case
      by (auto simp: items_of_def map_of_eq_None_iff split: option.splits)
  }
next
  case (Cons p pairs)
  {
    case 1
    then show ?case using Cons.IH(1)[of "dd_append acc (fst p) (snd p)"]
      by (simp add: distinct_dd_append)
  next
    case 2
    then show ?case using Cons.IH(2)[of "dd_append acc (fst p) (snd p)"]
      by (simp add: distinct_dd_append keys_dd_append)
  next
    case 3
    then show ?case using Cons.IH(3)[of "dd_append acc (fst p) (snd p)"]
      by (auto simp: distinct_dd_append keys_dd_append map_of_dd_append items_of_def
          map_of_eq_None_iff split: option.splits)
  }
qed

lemma sorted_key_pairs:
  "sorted ks \<Longrightarrow> distinct ks \<Longrightarrow> sorted (map (\<lambda>k. (k, f k)) ks)"
proof (induction ks)
  case Nil
  show ?case by simp
next
  case (Cons a ks)
  have "a < x" if "x \<in> set ks" for x
    using Cons.prems that by (cases "a = x") auto
  then show ?case using Cons by (auto simp: less_eq_prod_def)
qed

lemma sort_dict:
  fixes G :: "('k::linorder, 'v::linorder) dict"
  assumes d: "distinct (map fst G)"
    and v: "\<And>k. k \<in> fst ` set G \<Longrightarrow> map_of G k = Some (f k)"
    and ks: "sorted ks" "distinct ks" "set ks = fst ` set G"
  shows "sort G = map (\<lambda>k. (k, f k)) ks"
proof (rule sorted_distinct_set_unique)
  show "sorted (sort G)" by simp
  show "distinct (sort G)" using d by (simp add: distinct_map)
  show "sorted (map (\<lambda>k. (k, f k)) ks)" using ks by (simp add: sorted_key_pairs)
  show "distinct (map (\<lambda>k. (k, f k)) ks)"
    using ks by (simp add: distinct_map inj_on_def)
  show "set (sort G) = set (map (\<lambda>k. (k, f k)) ks)"
  proof (rule set_eqI)
    fix p :: "'k \<times> 'v"
    obtain k x where p: "p = (k, x)" by (cases p)
    have "(k, x) \<in> set G \<longleftrightarrow> k \<in> fst ` set G \<and> x = f k"
    proof
      assume in_G: "(k, x) \<in> set G"
      then have "k \<in> fst ` set G" by force
      moreover from in_G d have "map_of G k = Some x" by simp
      ultimately show "k \<in> fst ` set G \<and> x = f k" using v[of k] by simp
    next
      assume "k \<in> fst ` set G \<and> x = f k"
      then have "map_of G k = Some x" using v[of k] by simp
      then show "(k, x) \<in> set G" by (rule map_of_SomeD)
    qed
    then show "p \<in> set (sort G) \<longleftrightarrow> p \<in> set (map (\<lambda>k. (k, f k)) ks)"
      using ks p by auto
  qed
qed

lemma fold_dict_set_fresh:
  "distinct (map fst xs) \<Longrightarrow> fst ` set acc \<inter> fst ` set xs = {} \<Longrightarrow>
   fold (\<lambda>(k, v) d. dict_set d k (f v)) xs acc = acc @ map (\<lambda>(k, v). (k, f v)) xs"
proof (induction xs arbitrary: acc)
  case Nil
  show ?case by simp
next
  case (Cons p xs)
  obtain k v where p: "p = (k, v)" by (cases p)
  from Cons.prems p have fresh: "k \<notin> fst ` set acc" by auto
  have "fst ` set (acc @ [(k, f v)]) \<inter> fst ` set xs = {}"
    using Cons.prems p by auto
  moreover have "distinct (map fst xs)" using Cons.prems by simp
  ultimately have "fold (\<lambda>(k, v) d. dict_set d k (f v)) xs (acc @ [(k, f v)]) =
      (acc @ [(k, f v)]) @ map (\<lambda>(k, v). (k, f v)) xs"
    by (rule Cons.IH[rotated])
  then show ?case using fresh p by (simp add: dict_set_new)
qed

lemma parse_query_output_spec: "parse_query_output output = Inr (parse_spec output)"
proof -
  let ?pairs = "kept_pairs output"
  let ?G = "fold (\<lambda>p d. dd_append d (fst p) (snd p)) ?pairs []"
  let ?ks = "sort (remdups (map fst ?pairs))"
  have loop: "parse_lines [] (splitlines output) = Inr ?G"
    by (simp add: parse_lines_fold kept_pairs_def kept_lines_def)
  have dG: "distinct (map fst ?G)"
    by (rule group_props(1)) simp
  have kG: "fst ` set ?G = fst ` set ?pairs"
    by (subst group_props(2)) simp_all
  have vG: "map_of ?G k = Some (items_of ?pairs k)" if "k \<in> fst ` set ?G" for k
    using that kG by (subst group_props(3)) simp_all
  have sorted_items: "sort ?G = map (\<lambda>k. (k, items_of ?pairs k)) ?ks"
    using dG vG by (rule sort_dict) (simp_all add: kG)
  have "fold (\<lambda>(k, v) d. dict_set d k (sort v)) (sort ?G) [] =
      [] @ map (\<lambda>(k, v). (k, sort v)) (sort ?G)"
    by (rule fold_dict_set_fresh) (simp_all add: sorted_items comp_def)
  then have "fold (\<lambda>(k, v) d. dict_set d k (sort v)) (sort ?G) [] = parse_spec output"
    by (simp add: sorted_items parse_spec_def comp_def)
  then show ?thesis by (simp add: parse_query_output_def loop)
qed

lemma startswith_two: "startswith s [a, b] \<longleftrightarrow> (\<exists>r. s = a # b # r)"
  by (cases s; cases "tl s") (auto simp: startswith_def)

lemma kept_pairs_join:
  "map (\<lambda>(ns, item). ns @ CHR '':'' # item) (kept_pairs output) = kept_lines output"
proof -
  have "map (\<lambda>(ns, item). ns @ CHR '':'' # item) (List.map_filter (split_last CHR '':'') ls) = ls"
    if "\<forall>l \<in> set ls. significant l" for ls
    using that
  proof (induction ls)
    case Nil
    show ?case by (simp add: map_filter_simps)
  next
    case (Cons l ls)
    then have "split_last CHR '':'' l \<noteq> None"
      by (simp add: split_last_None significant_def)
    then obtain a b where ab: "split_last CHR '':'' l = Some (a, b)" by auto
    then have "l = a @ CHR '':'' # b" by (simp add: split_last_Some)
    with Cons ab show ?case by (simp add: map_filter_simps)
  qed
  then show ?thesis by (simp add: kept_pairs_def kept_lines_def)
qed

lemma kept_pairs_last:
  "(ns, item) \<in> set (kept_pairs output) \<Longrightarrow>
     CHR '':'' \<notin> set item \<and> startswith ns ''//'' \<and> ns @ CHR '':'' # item \<in> set (kept_lines output)"
proof -
  assume "(ns, item) \<in> set (kept_pairs output)"
  then obtain l where l: "l \<in> set (kept_lines output)"
    and sp: "split_last CHR '':'' l = Some (ns, item)"
    by (auto simp: kept_pairs_def List.map_filter_def)
  from sp have eq: "l = ns @ CHR '':'' # item" and last: "CHR '':'' \<notin> set item"
    by (simp_all add: split_last_Some)
  from l have "startswith l ''//''" by (simp add: kept_lines_def significant_def)
  then obtain r where "ns @ CHR '':'' # item = CHR ''/'' # CHR ''/'' # r"
    using eq by (auto simp: startswith_two)
  then have "startswith ns ''//''"
    by (cases ns; cases "tl ns") (auto simp: startswith_two)
  with l eq last show ?thesis by simp
qed

lemma sorted_keys_parse_spec:
  "sorted (map fst (parse_spec output)) \<and> distinct (map fst (parse_spec output))"
  by (simp add: parse_spec_def comp_def)

lemma sorted_items_parse_spec:
  "(ns, items) \<in> set (parse_spec output) \<Longrightarrow>
     items = sort (items_of (kept_pairs output) ns) \<and> ns \<in> fst ` set (kept_pairs output)"
  by (auto simp: parse_spec_def)

text \<open>
  Claim C1. For every raw text the parser returns (it raises nothing) the index
  \<^const>\<open>parse_spec\<close> describes: the lines kept are those that, trimmed, are
  non-empty, begin with \<open>//\<close> and contain \<open>:\<close>; each kept line is namespace, \<open>:\<close>,
  item with no further \<open>:\<close> in the item, so it is split at its last \<open>:\<close>; namespaces
  come in lexical order, each once, and each namespace's items in lexical order. The
  scenario of the specification parses as it says.
\<close>

theorem parse_query_output_correct:
  "parse_query_output output = Inr (parse_spec output)
   \<and> map (\<lambda>(ns, item). ns @ '':'' @ item) (kept_pairs output) = kept_lines output
   \<and> (\<forall>(ns, item) \<in> set (kept_pairs output). CHR '':'' \<notin> set item)
   \<and> sorted (map fst (parse_spec output)) \<and> distinct (map fst (parse_spec output))
   \<and> (\<forall>(ns, items) \<in> set (parse_spec output). sorted items)
   \<and> parse_query_output ''//a/b:x\<newline>//a/b:y\<newline># comment\<newline>//c:z\<newline>''
       = Inr [(''//a/b'', [''x'', ''y'']), (''//c'', [''z''])]"
proof -
  have "\<forall>(ns, item) \<in> set (kept_pairs output). CHR '':'' \<notin> set item"
    using kept_pairs_last by blast
  moreover have "\<forall>(ns, items) \<in> set (parse_spec output). sorted items"
    using sorted_items_parse_spec by fastforce
  moreover have "map (\<lambda>(ns, item). ns @ '':'' @ item) (kept_pairs output) = kept_lines output"
    using kept_pairs_join by simp
  moreover have "parse_query_output ''//a/b:x\<newline>//a/b:y\<newline># comment\<newline>//c:z\<newline>''
       = Inr [(''//a/b'', [''x'', ''y'']), (''//c'', [''z''])]"
    by code_simp
  ultimately show ?thesis
    using parse_query_output_spec sorted_keys_parse_spec by simp
qed

theorem parse_query_output_correct_witness:
  "kept_lines ''  //k:v:w  \<newline>junk'' = [''//k:v:w'']
   \<and> kept_pairs ''  //k:v:w  \<newline>junk'' = [(''//k:v'', ''w'')]
   \<and> parse_query_output ''  //k:v:w  \<newline>junk'' = Inr [(''//k:v'', [''w''])]"
proof -
  have l: "kept_lines ''  //k:v:w  \<newline>junk'' = [''//k:v:w'']" by code_simp
  have p: "kept_pairs ''  //k:v:w  \<newline>junk'' = [(''//k:v'', ''w'')]" by code_simp
  have s: "parse_spec ''  //k:v:w  \<newline>junk'' = [(''//k:v'', [''w''])]" by code_simp
  from parse_query_output_correct[of "''  //k:v:w  \<newline>junk''"] l p s
  show ?thesis by simp
qed

lemma count_list_insort: "count_list (insort a xs) x = count_list (a # xs) x"
  by (induction xs) auto

lemma count_list_sort: "count_list (sort xs) x = count_list xs x"
  by (induction xs) (simp_all add: sort_key_simps count_list_insort)

lemma count_list_items_of: "count_list (items_of pairs ns) i = count_list pairs (ns, i)"
  by (induction pairs) (auto simp: items_of_def)

lemma join_eq_iff:
  assumes "CHR '':'' \<notin> set b" and "CHR '':'' \<notin> set i"
  shows "a @ CHR '':'' # b = ns @ CHR '':'' # i \<longleftrightarrow> a = ns \<and> b = i"
proof
  assume eq: "a @ CHR '':'' # b = ns @ CHR '':'' # i"
  have "split_last CHR '':'' (a @ CHR '':'' # b) = Some (a, b)"
    using assms(1) by (simp add: split_last_Some)
  moreover have "split_last CHR '':'' (ns @ CHR '':'' # i) = Some (ns, i)"
    using assms(2) by (simp add: split_last_Some)
  ultimately have "Some (a, b) = Some (ns, i)" by (simp only: eq)
  then show "a = ns \<and> b = i" by simp
next
  assume "a = ns \<and> b = i"
  then show "a @ CHR '':'' # b = ns @ CHR '':'' # i" by simp
qed

lemma count_list_join:
  assumes "\<forall>(a, b) \<in> set pairs. CHR '':'' \<notin> set b" and "CHR '':'' \<notin> set i"
  shows "count_list (map (\<lambda>(a, b). a @ CHR '':'' # b) pairs) (ns @ CHR '':'' # i)
           = count_list pairs (ns, i)"
  using assms(1)
proof (induction pairs)
  case Nil
  show ?case by simp
next
  case (Cons p pairs)
  obtain a b where p: "p = (a, b)" by (cases p)
  with Cons.prems have b: "CHR '':'' \<notin> set b" by simp
  have IH: "count_list (map (\<lambda>(a, b). a @ CHR '':'' # b) pairs) (ns @ CHR '':'' # i)
           = count_list pairs (ns, i)"
    using Cons by simp
  show ?case
    unfolding p list.map count_list.simps prod.case IH join_eq_iff[OF b assms(2)]
    by simp
qed

lemma count_list_kept:
  "CHR '':'' \<notin> set i \<Longrightarrow>
   count_list (kept_lines output) (ns @ CHR '':'' # i) = count_list (kept_pairs output) (ns, i)"
proof -
  assume i: "CHR '':'' \<notin> set i"
  have "\<forall>(a, b) \<in> set (kept_pairs output). CHR '':'' \<notin> set b"
    using kept_pairs_last by blast
  then have "count_list (map (\<lambda>(a, b). a @ CHR '':'' # b) (kept_pairs output))
      (ns @ CHR '':'' # i) = count_list (kept_pairs output) (ns, i)"
    using i by (rule count_list_join)
  then show ?thesis by (simp only: kept_pairs_join)
qed

text \<open>
  Claim C6, as amended. For every raw text the parser returns an index in which no
  namespace maps to an empty sequence and every namespace is a non-empty string (it
  begins with \<open>//\<close>). An item is the empty string exactly when a kept line is the
  namespace followed by a final \<open>:\<close>; otherwise items are non-empty.
\<close>

theorem parse_index_shape:
  "\<exists>t. parse_query_output output = Inr t \<and>
     (\<forall>(ns, items) \<in> set t. items \<noteq> [] \<and> ns \<noteq> [] \<and> startswith ns ''//'' \<and>
        ([] \<in> set items \<longleftrightarrow> ns @ '':'' \<in> set (kept_lines output)))"
proof -
  have "items \<noteq> [] \<and> ns \<noteq> [] \<and> startswith ns ''//'' \<and>
        ([] \<in> set items \<longleftrightarrow> ns @ '':'' \<in> set (kept_lines output))"
    if "(ns, items) \<in> set (parse_spec output)" for ns items
  proof -
    from that have items: "items = sort (items_of (kept_pairs output) ns)"
      and ns: "ns \<in> fst ` set (kept_pairs output)"
      using sorted_items_parse_spec by blast+
    from ns obtain i where i: "(ns, i) \<in> set (kept_pairs output)" by auto
    then have "i \<in> set items" by (force simp: items items_of_def)
    then have "items \<noteq> []" by auto
    moreover from i have sw: "startswith ns ''//''" using kept_pairs_last by blast
    moreover from sw have "ns \<noteq> []" by (auto simp: startswith_two)
    moreover have "[] \<in> set items \<longleftrightarrow> ns @ '':'' \<in> set (kept_lines output)"
    proof -
      have "[] \<in> set items \<longleftrightarrow> count_list items [] > 0"
        using count_list_0_iff[of items "[]"] by auto
      also have "\<dots> \<longleftrightarrow> count_list (kept_lines output) (ns @ '':'') > 0"
        using count_list_kept[of "[]" "output" ns]
        by (simp add: items count_list_sort count_list_items_of)
      also have "\<dots> \<longleftrightarrow> ns @ '':'' \<in> set (kept_lines output)"
        using count_list_0_iff[of "kept_lines output" "ns @ '':''"] by auto
      finally show ?thesis .
    qed
    ultimately show ?thesis by simp
  qed
  then show ?thesis using parse_query_output_spec[of "output"] by auto
qed

theorem parse_index_shape_witness:
  "parse_query_output ''//a:\<newline>//a:b'' = Inr [(''//a'', ['''', ''b''])]
   \<and> ''//a:'' \<in> set (kept_lines ''//a:\<newline>//a:b'')"
proof -
  have p: "parse_query_output ''//a:\<newline>//a:b'' = Inr [(''//a'', ['''', ''b''])]"
    by code_simp
  have k: "kept_lines ''//a:\<newline>//a:b'' = [''//a:'', ''//a:b'']" by code_simp
  from parse_index_shape[of "''//a:\<newline>//a:b''"] p k show ?thesis by simp
qed

text \<open>
  The line \<open>//a:\<close> is kept and gives the namespace \<open>//a\<close> an empty item, so the
  invariant of C6 does not hold of every result.
\<close>

theorem empty_item_counterexample:
  "parse_query_output ''//a:'' = Inr [(''//a'', [''''])]
   \<and> \<not> index_invariant [(''//a'', [''''])]"
  by code_simp

text \<open>
  Claim C7, as amended. For every raw text, each namespace's item list in the result is
  sorted lexically and holds an item once for every kept line that is this namespace,
  \<open>:\<close>, this item: a line that occurs twice gives the item twice, nothing is removed.
\<close>

theorem parse_items_sorted_counted:
  "\<exists>t. parse_query_output output = Inr t \<and>
     (\<forall>(ns, items) \<in> set t. sorted items \<and>
        (\<forall>i. count_list items i =
           (if CHR '':'' \<in> set i then 0
            else count_list (kept_lines output) (ns @ '':'' @ i))))"
proof -
  have "sorted items \<and>
        (\<forall>i. count_list items i =
           (if CHR '':'' \<in> set i then 0
            else count_list (kept_lines output) (ns @ '':'' @ i)))"
    if "(ns, items) \<in> set (parse_spec output)" for ns items
  proof -
    from that have items: "items = sort (items_of (kept_pairs output) ns)"
      using sorted_items_parse_spec by blast
    have c: "count_list items i = count_list (kept_pairs output) (ns, i)" for i
      by (simp add: items count_list_sort count_list_items_of)
    have "count_list items i = 0" if "CHR '':'' \<in> set i" for i
    proof -
      from that have "(ns, i) \<notin> set (kept_pairs output)"
        using kept_pairs_last by blast
      then show ?thesis by (simp add: c)
    qed
    moreover have "count_list items i = count_list (kept_lines output) (ns @ '':'' @ i)"
      if "CHR '':'' \<notin> set i" for i
      using that count_list_kept[of i "output" ns] by (simp add: c)
    ultimately show ?thesis by (simp add: items)
  qed
  then show ?thesis using parse_query_output_spec[of "output"] by auto
qed

theorem parse_items_sorted_counted_witness:
  "parse_query_output ''//a:y\<newline>//a:x\<newline>//a:y'' = Inr [(''//a'', [''x'', ''y'', ''y''])]
   \<and> count_list (kept_lines ''//a:y\<newline>//a:x\<newline>//a:y'') ''//a:y'' = 2"
proof -
  have p: "parse_query_output ''//a:y\<newline>//a:x\<newline>//a:y'' = Inr [(''//a'', [''x'', ''y'', ''y''])]"
    by code_simp
  obtain t where t: "parse_query_output ''//a:y\<newline>//a:x\<newline>//a:y'' = Inr t"
    and c: "\<forall>(ns, items) \<in> set t. sorted items \<and>
        (\<forall>i. count_list items i =
           (if CHR '':'' \<in> set i then 0
            else count_list (kept_lines ''//a:y\<newline>//a:x\<newline>//a:y'') (ns @ '':'' @ i)))"
    using parse_items_sorted_counted[of "''//a:y\<newline>//a:x\<newline>//a:y''"] by blast
  from t p have "t = [(''//a'', [''x'', ''y'', ''y''])]" by simp
  with c have "\<forall>i. count_list [''x'', ''y'', ''y''] i =
           (if CHR '':'' \<in> set i then 0
            else count_list (kept_lines ''//a:y\<newline>//a:x\<newline>//a:y'') (''//a'' @ '':'' @ i))"
    by simp
  then have "count_list [''x'', ''y'', ''y''] ''y'' =
           (if CHR '':'' \<in> set ''y'' then 0
            else count_list (kept_lines ''//a:y\<newline>//a:x\<newline>//a:y'') (''//a'' @ '':'' @ ''y''))"
    by (rule spec)
  then have "count_list (kept_lines ''//a:y\<newline>//a:x\<newline>//a:y'') ''//a:y'' = 2"
    by simp
  with p show ?thesis by simp
qed

text \<open>
  A line that occurs twice gives its item twice: the list of C7 is not deduplicated.
\<close>

theorem duplicate_items_counterexample:
  "parse_query_output ''//a:x\<newline>//a:x'' = Inr [(''//a'', [''x'', ''x''])]
   \<and> \<not> distinct [''x'', ''x'']"
proof -
  have "parse_query_output ''//a:x\<newline>//a:x'' = Inr [(''//a'', [''x'', ''x''])]"
    by code_simp
  then show ?thesis by simp
qed

section \<open>Properties of the fuzzy list\<close>

lemma char_eq_code: "c = d \<longleftrightarrow> (of_char c :: nat) = of_char d"
  by simp

lemma is_space_code:
  "is_space c \<longleftrightarrow> (of_char c :: nat) \<in> {9, 10, 11, 12, 13, 28, 29, 30, 31, 32, 133, 160}"
  unfolding is_space_def set_simps insert_iff empty_iff
  by (simp add: char_eq_code[of c] del: of_char_eq_iff)

lemma is_space_lower_char: "is_space (lower_char c) = is_space c"
proof (cases "lower_char c = c")
  case True
  then show ?thesis by simp
next
  case False
  then have r: "(65 \<le> (of_char c :: nat) \<and> (of_char c :: nat) \<le> 90) \<or>
      (192 \<le> (of_char c :: nat) \<and> (of_char c :: nat) \<le> 222 \<and> (of_char c :: nat) \<noteq> 215)"
    and l: "lower_char c = char_of (of_char c + 32 :: nat)"
    by (auto simp: lower_char_def Let_def split: if_splits)
  from r have "(of_char c + 32 :: nat) mod 256 = of_char c + 32" by auto
  then have "(of_char (lower_char c) :: nat) = of_char c + 32"
    by (simp add: l)
  with r show ?thesis unfolding is_space_code by auto
qed


lemma split_from_lower:
  "split_from (lower cur) (lower s) = map lower (split_from cur s)"
proof (induction s arbitrary: cur)
  case Nil
  show ?case by (simp add: lower_def)
next
  case (Cons c s)
  have l: "lower (c # s) = lower_char c # lower s" "lower [] = []"
    "lower (cur @ [c]) = lower cur @ [lower_char c]" "lower cur = [] \<longleftrightarrow> cur = []"
    by (simp_all add: lower_def)
  show ?case
    unfolding l split_from.simps is_space_lower_char
    using Cons.IH[of "[]"] Cons.IH[of "cur @ [c]"]
    by (simp add: l)
qed

lemma split_ws_lower: "split_ws (lower s) = map lower (split_ws s)"
  using split_from_lower[of "[]" s] by (simp add: split_ws_def lower_def)

lemma split_from_blank:
  "\<forall>c \<in> set s. is_space c \<Longrightarrow> split_from [] s = []"
  by (induction s) simp_all

lemma strip_blank: "strip s = [] \<longleftrightarrow> (\<forall>c \<in> set s. is_space c)"
proof
  assume "strip s = []"
  then have all: "\<forall>c \<in> set (dropWhile is_space s). is_space c"
    by (simp add: strip_def dropWhile_eq_Nil_conv)
  have "dropWhile is_space s = []"
  proof (rule ccontr)
    assume ne: "dropWhile is_space s \<noteq> []"
    then have "\<not> is_space (hd (dropWhile is_space s))" by (rule hd_dropWhile)
    moreover from ne have "hd (dropWhile is_space s) \<in> set (dropWhile is_space s)"
      by (rule hd_in_set)
    ultimately show False using all by blast
  qed
  then show "\<forall>c \<in> set s. is_space c"
    using dropWhile_eq_Nil_conv[of is_space s] by blast
next
  assume "\<forall>c \<in> set s. is_space c"
  then show "strip s = []" by (auto simp: strip_def dest: set_dropWhileD)
qed

lemma startswith_iff: "startswith s t \<longleftrightarrow> (\<exists>r. s = t @ r)"
proof
  assume "startswith s t"
  then have "s = t @ drop (length t) s"
    by (metis append_take_drop_id startswith_def)
  then show "\<exists>r. s = t @ r" ..
next
  assume "\<exists>r. s = t @ r"
  then show "startswith s t" by (auto simp: startswith_def)
qed

lemma contains_iff: "contains s t \<longleftrightarrow> (\<exists>p r. s = p @ t @ r)"
proof (induction s)
  case Nil
  show ?case by simp
next
  case (Cons c cs)
  show ?case
  proof
    assume "contains (c # cs) t"
    then consider "startswith (c # cs) t" | "contains cs t" by auto
    then show "\<exists>p r. c # cs = p @ t @ r"
    proof cases
      case 1
      then obtain r where "c # cs = t @ r" by (auto simp: startswith_iff)
      then have "c # cs = [] @ t @ r" by simp
      then show ?thesis by blast
    next
      case 2
      then obtain p r where "cs = p @ t @ r" using Cons.IH by auto
      then have "c # cs = (c # p) @ t @ r" by simp
      then show ?thesis by blast
    qed
  next
    assume "\<exists>p r. c # cs = p @ t @ r"
    then obtain p r where pr: "c # cs = p @ t @ r" by auto
    show "contains (c # cs) t"
    proof (cases p)
      case Nil
      with pr have "startswith (c # cs) t" by (auto simp: startswith_iff)
      then show ?thesis by simp
    next
      case (Cons a p')
      with pr have "cs = p' @ t @ r" by simp
      then have "contains cs t" using Cons.IH by auto
      then show ?thesis by simp
    qed
  qed
qed

lemma fuzzy_filter_spec:
  "fuzzy_filter query items =
     filter (\<lambda>item. \<forall>t \<in> set (split_ws query). \<exists>p r. lower item = p @ lower t @ r) items"
proof (cases "strip query = []")
  case True
  then have "split_ws query = []"
    by (simp add: strip_blank split_ws_def split_from_blank)
  with True show ?thesis by (simp add: fuzzy_filter_def)
next
  case False
  then show ?thesis
    by (simp add: fuzzy_filter_def split_ws_lower list_all_iff contains_iff)
qed

text \<open>
  On strings of code points below 256, where \<open>lower\<close> maps character by character,
  \<open>set_filter\<close> makes the filtered view the source items, in source order, whose
  lower-cased form contains the lower-cased form of every whitespace-separated token of
  the text; for an empty or all-whitespace text the view is the whole source list.
\<close>

theorem set_filter_below_256:
  "filtered (set_filter st text) =
     filter (\<lambda>item. \<forall>t \<in> set (split_ws text). \<exists>p r. lower item = p @ lower t @ r)
       (all_items st)
   \<and> ((\<forall>c \<in> set text. is_space c) \<longrightarrow> filtered (set_filter st text) = all_items st)"
proof -
  have "filtered (set_filter st text) = fuzzy_filter text (all_items st)"
    by (simp add: set_filter_def)
  moreover have "fuzzy_filter text (all_items st) = all_items st"
    if "\<forall>c \<in> set text. is_space c"
    using that by (simp add: fuzzy_filter_def strip_blank)
  ultimately show ?thesis by (simp add: fuzzy_filter_spec)
qed

lemma of_char_below_256: "(of_char c :: nat) < 256"
proof -
  have "(of_char c :: nat) mod 256 = of_char c" by (rule of_char_mod_256)
  moreover have "(of_char c :: nat) mod 256 < 256" by simp
  ultimately show ?thesis by simp
qed

lemma is_space_u_below_256:
  "n < 256 \<Longrightarrow>
   is_space_u n \<longleftrightarrow> n \<in> {9, 10, 11, 12, 13, 28, 29, 30, 31, 32, 133, 160}"
  unfolding is_space_u_def insert_iff empty_iff by presburger

lemma is_space_u_of_char: "is_space_u (of_char c) = is_space c"
  unfolding is_space_code by (rule is_space_u_below_256) (rule of_char_below_256)

lemma strip_u_of_char: "strip_u (map of_char s) = map of_char (strip s)"
proof -
  have d: "dropWhile is_space_u (map of_char xs) = map of_char (dropWhile is_space xs)" for xs
    by (induction xs) (simp_all add: is_space_u_of_char)
  show ?thesis by (simp add: strip_u_def strip_def d rev_map)
qed

lemma split_from_u_of_char:
  "split_from_u (map of_char cur) (map of_char s) = map (map of_char) (split_from cur s)"
proof (induction s arbitrary: cur)
  case Nil
  show ?case by simp
next
  case (Cons c s)
  have "split_from_u (map of_char (cur @ [c])) (map of_char s) =
      map (map of_char) (split_from (cur @ [c]) s)"
    by (rule Cons.IH)
  moreover have "split_from_u (map of_char []) (map of_char s) =
      map (map of_char) (split_from [] s)"
    by (rule Cons.IH)
  ultimately show ?case by (simp add: is_space_u_of_char)
qed

lemma split_u_of_char: "split_u (map of_char s) = map (map of_char) (split_ws s)"
  using split_from_u_of_char[of "[]" s] by (simp add: split_u_def split_ws_def)

lemma lower_from_of_char:
  assumes "\<And>c. to_lower_full db (of_char c) = [of_char (lower_char c)]"
  shows "lower_from db prev (map of_char s) = map of_char (lower s)"
proof (induction s arbitrary: prev)
  case Nil
  show ?case by (simp add: lower_def)
next
  case (Cons c s)
  have "(of_char c :: nat) \<noteq> 0x3A3"
  proof
    assume "(of_char c :: nat) = 0x3A3"
    then have "(0x3A3 :: nat) < 256" using of_char_below_256[of c] by (simp only:)
    then show False by simp
  qed
  moreover have "lower_from db (of_char c # prev) (map of_char s) = map of_char (lower s)"
    by (rule Cons.IH)
  ultimately show ?case using assms[of c] by (simp add: lower_def)
qed

lemma startswith_map_inj:
  "inj f \<Longrightarrow> startswith (map f s) (map f t) = startswith s t"
  by (simp add: startswith_def take_map inj_map_eq_map)

lemma contains_map_inj:
  "inj f \<Longrightarrow> contains (map f s) (map f t) = contains s t"
proof (induction s)
  case Nil
  then show ?case by simp
next
  case (Cons c s)
  have "startswith (map f (c # s)) (map f t) = startswith (c # s) t"
    using Cons.prems by (rule startswith_map_inj)
  then show ?case using Cons by simp
qed

lemma inj_of_char_nat: "inj (of_char :: char \<Rightarrow> nat)"
  by (rule injI) simp

text \<open>
  On code points below 256 the filter of the first model is the filter on code points,
  for every table whose full lower-case mapping of such a code point is the single
  character \<^const>\<open>lower_char\<close> gives.
\<close>

lemma fuzzy_filter_u_below_256:
  assumes "\<And>c. to_lower_full db (of_char c) = [of_char (lower_char c)]"
  shows "fuzzy_filter_u db (map of_char query) (map (map of_char) items) =
    map (map of_char) (fuzzy_filter query items)"
proof (cases "strip query = []")
  case True
  then show ?thesis by (simp add: fuzzy_filter_u_def fuzzy_filter_def strip_u_of_char)
next
  case False
  let ?g = "map (of_char :: char \<Rightarrow> nat)"
  have l: "lower_u db (?g s) = ?g (lower s)" for s
    unfolding lower_u_def using assms by (rule lower_from_of_char)
  have tokens: "split_u (lower_u db (?g query)) = map ?g (split_ws (lower query))"
    by (simp only: l split_u_of_char)
  have m: "list_all (\<lambda>t. contains (?g x) t) (map ?g ts) = list_all (\<lambda>t. contains x t) ts"
    for x ts
    by (induction ts) (simp_all add: contains_map_inj[OF inj_of_char_nat])
  have keep: "list_all (\<lambda>t. contains (lower_u db (?g item)) t) (split_u (lower_u db (?g query)))
      = list_all (\<lambda>t. contains (lower item) t) (split_ws (lower query))" for item
    by (simp only: l split_u_of_char m)
  have "fuzzy_filter_u db (?g query) (map ?g items) =
      filter (\<lambda>item. list_all (\<lambda>t. contains (lower_u db item) t)
        (split_u (lower_u db (?g query)))) (map ?g items)"
    using False by (simp add: fuzzy_filter_u_def strip_u_of_char Let_def)
  also have "\<dots> = map ?g (filter (\<lambda>item. list_all (\<lambda>t. contains (lower_u db (?g item)) t)
        (split_u (lower_u db (?g query)))) items)"
    by (simp only: filter_map comp_def)
  also have "\<dots> = map ?g (filter (\<lambda>item. list_all (\<lambda>t. contains (lower item) t)
        (split_ws (lower query))) items)"
    by (simp only: keep)
  also have "\<dots> = map ?g (fuzzy_filter query items)"
    using False by (simp add: fuzzy_filter_def Let_def)
  finally show ?thesis .
qed

text \<open>
  Claim C2 has \<open>set_filter\<close> keep exactly the source items that contain every token of
  the text without regard to case, and the docstring of \<open>fuzzy_filter\<close> calls it a
  case-insensitive substring filter. The code looks for the tokens of the lower-cased text
  in each lower-cased item, and \<open>str.lower\<close> writes a capital sigma that ends a word as
  final sigma and any other as small sigma. For the filter text of the one letter capital
  sigma (U+03A3) and the source item capital alpha, capital sigma (U+0391 U+03A3) the item
  contains the token as it stands, yet its lower-cased form ends in final sigma (U+03C2),
  the token's is small sigma (U+03C3), and \<open>fuzzy_filter\<close> drops the item: the filtered
  view is empty. This is so with every table that gives capital alpha the lower case
  U+03B1 and has it cased and not case-ignorable, as Unicode does.
\<close>

theorem fuzzy_filter_drops_final_sigma:
  assumes "to_lower_full db 0x391 = [0x3B1]" and "is_cased db 0x391"
    and "\<not> is_case_ignorable db 0x391"
  shows "contains [0x391, 0x3A3] [0x3A3 :: nat]
    \<and> lower_u db [0x3A3] = [0x3C3]
    \<and> lower_u db [0x391, 0x3A3] = [0x3B1, 0x3C2]
    \<and> fuzzy_filter_u db [0x3A3] [[0x391, 0x3A3]] = []"
proof -
  have c: "contains [0x391, 0x3A3] [0x3A3 :: nat]"
    by (simp add: startswith_def)
  have q: "lower_u db [0x3A3] = [0x3C3]"
    by (simp add: lower_u_def final_sigma_def)
  have i: "lower_u db [0x391, 0x3A3] = [0x3B1, 0x3C2]"
    using assms by (simp add: lower_u_def final_sigma_def)
  have s: "strip_u [0x3A3] = [0x3A3]"
    by (simp add: strip_u_def is_space_u_def)
  have t: "split_u [0x3C3] = [[0x3C3]]"
    by (simp add: split_u_def is_space_u_def)
  have "fuzzy_filter_u db [0x3A3] [[0x391, 0x3A3]] = []"
    by (simp add: fuzzy_filter_u_def s q i t startswith_def)
  with c q i show ?thesis by simp
qed

theorem fuzzy_filter_drops_final_sigma_witness:
  "fuzzy_filter_u
     \<lparr>to_lower_full = (\<lambda>c. if c = 0x391 then [0x3B1] else [c]),
      is_cased = (\<lambda>c. c = 0x391), is_case_ignorable = (\<lambda>c. False)\<rparr>
     [0x3A3] [[0x391, 0x3A3]] = []"
proof -
  let ?db = "\<lparr>to_lower_full = (\<lambda>c. if c = 0x391 then [0x3B1] else [c]),
      is_cased = (\<lambda>c. c = (0x391 :: nat)), is_case_ignorable = (\<lambda>c :: nat. False)\<rparr>"
  have "to_lower_full ?db 0x391 = [0x3B1]" "is_cased ?db 0x391" "\<not> is_case_ignorable ?db 0x391"
    by simp_all
  from fuzzy_filter_drops_final_sigma[OF this] show ?thesis by simp
qed

lemma cursor_bounds_init: "cursor_bounds (init items)"
  by (cases items) (simp_all add: cursor_bounds_def cursor_invariant_def init_def)

lemma cursor_bounds_step: "cursor_bounds st \<Longrightarrow> cursor_bounds (step st op)"
proof (cases op)
  case (SetFilter query)
  show ?thesis
    by (cases "fuzzy_filter query (all_items st)")
      (simp_all add: SetFilter cursor_bounds_def cursor_invariant_def set_filter_def)
next
  case MoveUp
  assume "cursor_bounds st"
  then show ?thesis
    by (auto simp: MoveUp cursor_bounds_def cursor_invariant_def move_up_def)
next
  case MoveDown
  assume "cursor_bounds st"
  then show ?thesis
    by (auto simp: MoveDown cursor_bounds_def cursor_invariant_def move_down_def)
next
  case (UpdateItems items)
  show ?thesis
    by (cases "fuzzy_filter (filter_text st) items")
      (simp_all add: UpdateItems cursor_bounds_def cursor_invariant_def update_items_def)
qed

lemma cursor_bounds_run: "cursor_bounds st \<Longrightarrow> cursor_bounds (run st ops)"
  unfolding run_def
proof (induction ops arbitrary: st)
  case Nil
  then show ?case by simp
next
  case (Cons op ops)
  from Cons.prems have "cursor_bounds (step st op)" by (rule cursor_bounds_step)
  then have "cursor_bounds (foldl step (step st op) ops)" by (rule Cons.IH)
  then show ?case by simp
qed

lemma move_up_clamped:
  "0 \<le> cursor st \<Longrightarrow>
   move_up st = st\<lparr>cursor := max 0 (cursor st - 1)\<rparr>"
  by (simp add: move_up_def max_def)

lemma move_down_clamped:
  "cursor_bounds st \<Longrightarrow> filtered st \<noteq> [] \<Longrightarrow>
   move_down st = st\<lparr>cursor := min (int (length (filtered st)) - 1) (cursor st + 1)\<rparr>"
  by (auto simp: move_down_def min_def cursor_bounds_def cursor_invariant_def)

lemma move_down_empty: "cursor_bounds st \<Longrightarrow> filtered st = [] \<Longrightarrow> move_down st = st"
  by (simp add: move_down_def cursor_bounds_def)

text \<open>
  Claim C4. In every state a widget reaches from its construction by calls of
  \<open>set_filter\<close>, \<open>move_up\<close>, \<open>move_down\<close> and \<open>update_items\<close>, the cursor is not negative
  and, when the filtered view is non-empty, below its length. \<open>set_filter\<close> and
  \<open>update_items\<close> put the cursor at 0. In such a state \<open>move_up\<close> and \<open>move_down\<close> change
  the cursor only, by one position and clamped to the first and last row: there is no
  wraparound, and at a boundary (or on an empty view) the call changes nothing.
\<close>

theorem cursor_invariant_reachable:
  "(let st = run (init items) ops; n = int (length (filtered st)) in
      cursor_invariant st \<and> 0 \<le> cursor st
      \<and> move_up st = st\<lparr>cursor := max 0 (cursor st - 1)\<rparr>
      \<and> move_down st =
          (if filtered st = [] then st else st\<lparr>cursor := min (n - 1) (cursor st + 1)\<rparr>)
      \<and> (cursor st = 0 \<longrightarrow> move_up st = st)
      \<and> (cursor st = n - 1 \<longrightarrow> move_down st = st))
   \<and> cursor (set_filter st' text) = 0
   \<and> cursor (update_items st' new_items) = 0"
proof -
  have b: "cursor_bounds (run (init items) ops)"
    using cursor_bounds_init by (rule cursor_bounds_run)
  then have "cursor_invariant (run (init items) ops)" "0 \<le> cursor (run (init items) ops)"
    by (simp_all add: cursor_bounds_def)
  moreover have "move_up (run (init items) ops) =
      (run (init items) ops)\<lparr>cursor := max 0 (cursor (run (init items) ops) - 1)\<rparr>"
    using b by (simp add: move_up_clamped cursor_bounds_def)
  moreover have "move_down (run (init items) ops) =
      (if filtered (run (init items) ops) = [] then run (init items) ops
       else (run (init items) ops)\<lparr>cursor :=
          min (int (length (filtered (run (init items) ops))) - 1)
            (cursor (run (init items) ops) + 1)\<rparr>)"
    using b by (simp add: move_down_clamped move_down_empty)
  moreover have "cursor s = 0 \<longrightarrow> move_up s = s" for s
    by (simp add: move_up_def)
  moreover have "cursor s = int (length (filtered s)) - 1 \<longrightarrow> move_down s = s" for s
    by (simp add: move_down_def)
  moreover have "cursor (set_filter st' text) = 0" by (simp add: set_filter_def)
  moreover have "cursor (update_items st' new_items) = 0" by (simp add: update_items_def)
  ultimately show ?thesis by (simp add: Let_def)
qed

theorem cursor_invariant_reachable_witness:
  "filtered (run (init [''alpha_target'', ''beta_target'', ''alpha_other'']) [SetFilter ''alpha''])
     = [''alpha_target'', ''alpha_other'']
   \<and> cursor (run (init [''alpha_target'', ''beta_target'', ''alpha_other'']) [SetFilter ''alpha'']) = 0
   \<and> cursor (move_down (run (init [''alpha_target'', ''beta_target'', ''alpha_other''])
        [SetFilter ''alpha''])) = 1
   \<and> cursor (move_down (run (init [''alpha_target'', ''beta_target'', ''alpha_other''])
        [SetFilter ''alpha'', MoveDown])) = 1"
proof -
  let ?st = "run (init [''alpha_target'', ''beta_target'', ''alpha_other'']) [SetFilter ''alpha'']"
  let ?st1 = "run (init [''alpha_target'', ''beta_target'', ''alpha_other''])
    [SetFilter ''alpha'', MoveDown]"
  have f: "filtered ?st = [''alpha_target'', ''alpha_other'']" by code_simp
  have c: "cursor ?st = 0" by (simp add: run_def set_filter_def)
  have f1: "filtered ?st1 = [''alpha_target'', ''alpha_other'']" by code_simp
  have "move_down ?st = ?st\<lparr>cursor := min (int (length (filtered ?st)) - 1) (cursor ?st + 1)\<rparr>"
    using cursor_invariant_reachable
      [of "[''alpha_target'', ''beta_target'', ''alpha_other'']" "[SetFilter ''alpha'']"] f
    by (simp add: Let_def)
  then have c1: "cursor (move_down ?st) = 1" by (simp add: f c)
  have "?st1 = move_down ?st" by (simp add: run_def)
  with c1 have cst1: "cursor ?st1 = 1" by simp
  have "move_down ?st1 = ?st1\<lparr>cursor := min (int (length (filtered ?st1)) - 1) (cursor ?st1 + 1)\<rparr>"
    using cursor_invariant_reachable
      [of "[''alpha_target'', ''beta_target'', ''alpha_other'']" "[SetFilter ''alpha'', MoveDown]"] f1
    by (simp add: Let_def)
  then have c2: "cursor (move_down ?st1) = 1" by (simp add: f1 cst1)
  from f c c1 c2 show ?thesis by simp
qed

lemma window_bounds:
  assumes "1 \<le> height" and "0 \<le> n" and "window n cur height = (s, e)"
  shows "0 \<le> s \<and> s \<le> e \<and> e \<le> n \<and> e - s \<le> height"
    and "s = max 0 (min (cur - height div 2) (n - height))"
    and "e = min n (s + height)"
    and "n \<le> height \<Longrightarrow> s = 0 \<and> e = n"
    and "0 \<le> cur \<Longrightarrow> cur < n \<Longrightarrow> s \<le> cur \<and> cur < e"
proof -
  define half where "half = height div 2"
  have half: "0 \<le> half" "half < height" using assms(1) by (auto simp: half_def)
  have s: "s = (if min n (max 0 (cur - half) + height) - max 0 (cur - half) < height
               then max 0 (min n (max 0 (cur - half) + height) - height)
               else max 0 (cur - half))"
    and e: "e = min n (max 0 (cur - half) + height)"
    using assms(3) unfolding window_def Let_def half_def by auto
  show "0 \<le> s \<and> s \<le> e \<and> e \<le> n \<and> e - s \<le> height"
    using assms(1,2) half unfolding s e by (simp add: max_def min_def)
  show "s = max 0 (min (cur - height div 2) (n - height))"
    using assms(1,2) half unfolding s half_def[symmetric] by (simp add: max_def min_def)
  show "e = min n (s + height)"
    using assms(1,2) half unfolding s e by (simp add: max_def min_def)
  show "s = 0 \<and> e = n" if "n \<le> height"
    using that assms(1,2) half unfolding s e by (simp add: max_def min_def)
  show "s \<le> cur \<and> cur < e" if "0 \<le> cur" "cur < n"
    using that assms(1,2) half unfolding s e by (simp add: max_def min_def)
qed

lemma render_rows_in_range:
  "\<forall>i \<in> set idx. 0 \<le> i \<and> i < int (length items) \<Longrightarrow>
   render_rows fmt items cur idx = Inr (map (\<lambda>i. Row (i = cur) (fmt (items ! nat i))) idx)"
  by (induction idx) (simp_all add: py_index_def)


text \<open>
  Claim C5. For a state that satisfies the cursor invariant and a height of at least 1,
  the window \<open>[s, e)\<close> of \<open>render\<close> lies within the filtered sequence and has at most
  \<open>height\<close> rows; its start is \<open>cursor - height div 2\<close> clamped to \<open>[0, n - height]\<close>
  and its end is \<open>s + height\<close> clamped to \<open>n\<close>; it is the whole sequence when that has
  at most \<open>height\<close> items, and it holds the cursor's row. Rendering raises no
  \<open>IndexError\<close>: it gives the rows \<open>s\<close> to \<open>e - 1\<close> of the filtered sequence in order and
  then the padding. The result depends on the filtered sequence, the cursor and the
  height only.
\<close>

theorem render_window:
  assumes "1 \<le> height" and "cursor_invariant st"
  shows "case window (int (length (filtered st))) (cursor st) height of (s, e) \<Rightarrow>
     0 \<le> s \<and> s \<le> e \<and> e \<le> int (length (filtered st)) \<and> e - s \<le> height
     \<and> s = max 0 (min (cursor st - height div 2) (int (length (filtered st)) - height))
     \<and> e = min (int (length (filtered st))) (s + height)
     \<and> (int (length (filtered st)) \<le> height \<longrightarrow> s = 0 \<and> e = int (length (filtered st)))
     \<and> (filtered st \<noteq> [] \<longrightarrow> s \<le> cursor st \<and> cursor st < e)
     \<and> render st fmt height =
         (if filtered st = [] then Inr [NoMatches]
          else Inr (map (\<lambda>i. Row (i = cursor st) (fmt (filtered st ! nat i))) [s..e - 1]
                    @ replicate (nat (height - (e - s))) Blank))
     \<and> (\<forall>st'. filtered st' = filtered st \<and> cursor st' = cursor st \<longrightarrow>
           render st' fmt height = render st fmt height)"
proof -
  obtain s e where w: "window (int (length (filtered st))) (cursor st) height = (s, e)"
    by (cases "window (int (length (filtered st))) (cursor st) height")
  have n: "0 \<le> int (length (filtered st))" by simp
  note b = window_bounds[OF assms(1) n w]
  have c: "s \<le> cursor st \<and> cursor st < e" if "filtered st \<noteq> []"
    using that assms(2) b(5) by (simp add: cursor_invariant_def)
  have "\<forall>i \<in> set [s..e - 1]. 0 \<le> i \<and> i < int (length (filtered st))"
    using b(1) by auto
  then have rows: "render_rows fmt (filtered st) (cursor st) [s..e - 1] =
      Inr (map (\<lambda>i. Row (i = cursor st) (fmt (filtered st ! nat i))) [s..e - 1])"
    by (rule render_rows_in_range)
  have r: "render st fmt height =
         (if filtered st = [] then Inr [NoMatches]
          else Inr (map (\<lambda>i. Row (i = cursor st) (fmt (filtered st ! nat i))) [s..e - 1]
                    @ replicate (nat (height - (e - s))) Blank))"
    using assms(1) by (simp add: render_def Let_def w rows)
  have d: "render st' fmt height = render st fmt height"
    if "filtered st' = filtered st \<and> cursor st' = cursor st" for st'
  proof -
    from that have "filtered st' = filtered st" "cursor st' = cursor st" by simp_all
    then show ?thesis unfolding render_def by (simp only:)
  qed
  show ?thesis
    unfolding w prod.case using b(1,2,3,4) c r d by blast
qed

theorem render_window_witness:
  "(1::int) \<le> 2
   \<and> cursor_invariant \<lparr>all_items = [], filter_text = [], cursor = 3,
        filtered = [''a'', ''b'', ''c'', ''d'', ''e'']\<rparr>
   \<and> window 5 3 2 = (2, 4)
   \<and> render \<lparr>all_items = [], filter_text = [], cursor = 3,
        filtered = [''a'', ''b'', ''c'', ''d'', ''e'']\<rparr> (\<lambda>x. x) 2
      = Inr [Row False ''c'', Row True ''d'']"
proof -
  let ?st = "\<lparr>all_items = [], filter_text = [], cursor = 3,
        filtered = [''a'', ''b'', ''c'', ''d'', ''e'']\<rparr>"
  have h: "(1::int) \<le> 2" by simp
  have i: "cursor_invariant ?st" by (simp add: cursor_invariant_def)
  have w: "window 5 3 2 = (2, 4)" by (simp add: window_def)
  have u: "[2..4 - 1] = [2::int, 3]" by (simp add: upto.simps)
  from render_window[OF h i, of "\<lambda>x. x"]
  have "render ?st (\<lambda>x. x) 2 = Inr [Row False ''c'', Row True ''d'']"
    by (simp add: w u)
  with h i w show ?thesis by simp
qed

section \<open>Properties of the command builders\<close>

lemma join_bar: "kinds \<noteq> [] \<Longrightarrow> join sep kinds = concat (map (\<lambda>k. k @ sep) (butlast kinds)) @ last kinds"
  by (induction sep kinds rule: join.induct) simp_all

lemma kind_expr_nonempty:
  "kinds \<noteq> [] \<Longrightarrow> kind_expr kinds = Inr (concat (map (\<lambda>k. k @ ''|'') (butlast kinds)) @ last kinds)"
proof (cases "length kinds > 1")
  case True
  assume "kinds \<noteq> []"
  with True show ?thesis by (simp add: kind_expr_def join_bar)
next
  case False
  assume "kinds \<noteq> []"
  with False obtain k where "kinds = [k]" by (cases kinds) auto
  then show ?thesis by (simp add: kind_expr_def py_index_def)
qed

text \<open>
  Claim C9. For every scope and every non-empty list of kinds, both builders succeed.
  The local argument vector is \<open>bazel\<close>, \<open>query\<close> and the expression
  \<open>kind('<kinds>', <scope>)\<close>; the remote one is \<open>ssh\<close>, the host, and the command that
  changes to the shell-quoted remote directory and then runs \<open>bazel query\<close> on the same
  expression in double quotes. In the expression the kinds are joined by \<open>|\<close>; a single
  kind stands bare.
\<close>

theorem query_cmds_correct:
  assumes "kinds \<noteq> []"
  shows "local_query_cmd scope kinds = Inr [''bazel'', ''query'', kind_query kinds scope]
    \<and> build_query_cmd cfg scope kinds =
        Inr [''ssh'', host cfg,
             ''cd '' @ shlex_quote (remote_dir cfg) @ '' && bazel query ''
             @ [CHR 0x22] @ kind_query kinds scope @ [CHR 0x22]]
    \<and> (\<forall>k. kinds = [k] \<longrightarrow> kind_query kinds scope = ''kind('' @ [CHR 0x27] @ k @ [CHR 0x27] @ '', '' @ scope @ '')'')
    \<and> (\<forall>k1 k2. kinds = [k1, k2] \<longrightarrow>
          kind_query kinds scope = ''kind('' @ [CHR 0x27] @ k1 @ ''|'' @ k2 @ [CHR 0x27] @ '', '' @ scope @ '')'')"
  using assms by (simp add: local_query_cmd_def build_query_cmd_def kind_expr_nonempty kind_query_def)

theorem query_cmds_correct_witness:
  "[''genrule'', ''py_binary''] \<noteq> []
   \<and> local_query_cmd ''//...'' [''genrule'', ''py_binary'']
       = Inr [''bazel'', ''query'', ''kind('' @ [CHR 0x27] @ ''genrule|py_binary'' @ [CHR 0x27] @ '', //...)'']
   \<and> build_query_cmd \<lparr>host = ''u@h'', remote_dir = ''/my repo''\<rparr> ''//...'' [''genrule'', ''py_binary'']
       = Inr [''ssh'', ''u@h'',
              ''cd '' @ [CHR 0x27] @ ''/my repo'' @ [CHR 0x27] @ '' && bazel query ''
              @ [CHR 0x22] @ ''kind('' @ [CHR 0x27] @ ''genrule|py_binary'' @ [CHR 0x27] @ '', //...)'' @ [CHR 0x22]]"
proof -
  have n: "[''genrule'', ''py_binary''] \<noteq> []" by simp
  have q: "shlex_quote ''/my repo'' = [CHR 0x27] @ ''/my repo'' @ [CHR 0x27]" by code_simp
  from query_cmds_correct[OF n, of "''//...''" "\<lparr>host = ''u@h'', remote_dir = ''/my repo''\<rparr>"] q
  show ?thesis by (simp add: kind_query_def)
qed

section \<open>Properties of the disk cache\<close>

lemma load_cache_result:
  "snd (load_cache H s now h scope kinds ttl) =
     (if ttl \<le> 0 then None
      else case files s (cache_file H h scope kinds) of
             None \<Rightarrow> None
           | Some c \<Rightarrow> (case load_try now ttl c of Inl e \<Rightarrow> None | Inr r \<Rightarrow> r))"
  by (simp add: load_cache_def cache_path_def split: option.splits sum.splits)

lemma load_cache_fs:
  "fst (load_cache H s now h scope kinds ttl) =
     (if ttl \<le> 0 then s else s\<lparr>cache_dir_exists := True\<rparr>)"
  by (simp add: load_cache_def cache_path_def split: option.splits sum.splits)

lemma save_cache_fs:
  "save_cache H s now h scope kinds t =
     (if write_protected s (cache_file H h scope kinds) then s\<lparr>cache_dir_exists := True\<rparr>
      else s\<lparr>cache_dir_exists := True,
             files := (files s)(cache_file H h scope kinds \<mapsto>
               Json (JObj [(''version'', JNum 1),
                          (''host'', JStr (host_or_local h)),
                          (''scope'', JStr scope),
                          (''kinds'', JArr (map JStr kinds)),
                          (''timestamp'', JNum now),
                          (''targets'', json_of_targets t)]))\<rparr>)"
  by (simp add: save_cache_def cache_path_def write_text_def CACHE_VERSION_def)

lemma save_cache_refused:
  "write_protected s (cache_file H h scope kinds) \<Longrightarrow>
   files (save_cache H s now h scope kinds t) = files s"
  by (simp add: save_cache_fs)

lemma load_after_save:
  assumes "\<not> write_protected s (cache_file H h scope kinds)"
  shows "snd (load_cache H (save_cache H s now h scope kinds t) now' h scope kinds ttl) =
     (if 0 < ttl \<and> now' - now \<le> of_int ttl
      then Some \<lparr>entry_targets = json_of_targets t, entry_timestamp = JNum now\<rparr>
      else None)"
  using assms
  by (simp add: load_cache_result save_cache_fs load_try_def json_eq_int_def json_number_def
      CACHE_VERSION_def Let_def)


text \<open>
  Claim C8. After a write that the file system accepts, a read of the same key finds the
  targets that were written, for every positive ttl that is at least the time that has
  passed, and so for every ttl from some bound on; the read may be made in any file
  system state that holds the same cache file.
\<close>

theorem cache_round_trip:
  assumes "\<not> write_protected s (cache_file H h scope kinds)"
  shows "(\<forall>s2 ttl. files s2 (cache_file H h scope kinds)
              = files (save_cache H s now h scope kinds t) (cache_file H h scope kinds)
            \<and> 0 < ttl \<and> now' - now \<le> of_int ttl \<longrightarrow>
          (\<exists>e. snd (load_cache H s2 now' h scope kinds ttl) = Some e
               \<and> entry_targets e = json_of_targets t))
     \<and> (\<exists>B. \<forall>ttl \<ge> B. \<exists>e.
          snd (load_cache H (save_cache H s now h scope kinds t) now' h scope kinds ttl) = Some e
          \<and> entry_targets e = json_of_targets t)"
proof -
  have same: "snd (load_cache H s2 now' h scope kinds ttl) =
      snd (load_cache H (save_cache H s now h scope kinds t) now' h scope kinds ttl)"
    if "files s2 (cache_file H h scope kinds)
          = files (save_cache H s now h scope kinds t) (cache_file H h scope kinds)"
    for s2 ttl
    using that by (simp only: load_cache_result)
  have hit: "snd (load_cache H (save_cache H s now h scope kinds t) now' h scope kinds ttl) =
      Some \<lparr>entry_targets = json_of_targets t, entry_timestamp = JNum now\<rparr>"
    if "0 < ttl" "now' - now \<le> of_int ttl" for ttl
    using that assms by (simp add: load_after_save)
  have first: "\<exists>e. snd (load_cache H s2 now' h scope kinds ttl) = Some e
               \<and> entry_targets e = json_of_targets t"
    if "files s2 (cache_file H h scope kinds)
              = files (save_cache H s now h scope kinds t) (cache_file H h scope kinds)
            \<and> 0 < ttl \<and> now' - now \<le> of_int ttl" for s2 ttl
    using that same[of s2 ttl] hit[of ttl] by simp
  have "\<exists>e. snd (load_cache H (save_cache H s now h scope kinds t) now' h scope kinds ttl) = Some e
          \<and> entry_targets e = json_of_targets t"
    if "ttl \<ge> max 1 \<lceil>now' - now\<rceil>" for ttl
  proof -
    from that have "0 < ttl" and c: "\<lceil>now' - now\<rceil> \<le> ttl" by simp_all
    from c have "now' - now \<le> of_int ttl" by (simp add: ceiling_le_iff)
    with \<open>0 < ttl\<close> show ?thesis using hit[of ttl] by simp
  qed
  then have "\<exists>B. \<forall>ttl \<ge> B. \<exists>e.
          snd (load_cache H (save_cache H s now h scope kinds t) now' h scope kinds ttl) = Some e
          \<and> entry_targets e = json_of_targets t"
    by blast
  with first show ?thesis by blast
qed

theorem cache_round_trip_witness:
  "\<not> write_protected fresh_fs (cache_file id (Some ''u@h'') ''//...'' [''genrule''])
   \<and> (\<exists>e. snd (load_cache id
              (save_cache id fresh_fs 100 (Some ''u@h'') ''//...'' [''genrule''] [(''//a'', [''x''])])
              5000 (Some ''u@h'') ''//...'' [''genrule''] 86400) = Some e
          \<and> entry_targets e = JObj [(''//a'', JArr [JStr ''x''])])"
proof -
  have w: "\<not> write_protected fresh_fs (cache_file id (Some ''u@h'') ''//...'' [''genrule''])"
    by (simp add: fresh_fs_def)
  have j: "json_of_targets [(''//a'', [''x''])] = JObj [(''//a'', JArr [JStr ''x''])]"
    by (simp add: json_of_targets_def)
  have "files (save_cache id fresh_fs 100 (Some ''u@h'') ''//...'' [''genrule''] [(''//a'', [''x''])])
            (cache_file id (Some ''u@h'') ''//...'' [''genrule''])
          = files (save_cache id fresh_fs 100 (Some ''u@h'') ''//...'' [''genrule''] [(''//a'', [''x''])])
              (cache_file id (Some ''u@h'') ''//...'' [''genrule''])
        \<and> (0::int) < 86400 \<and> (5000::rat) - 100 \<le> of_int 86400"
    by simp
  with cache_round_trip[OF w, of 100 "[(''//a'', [''x''])]" 5000]
  have "\<exists>e. snd (load_cache id
              (save_cache id fresh_fs 100 (Some ''u@h'') ''//...'' [''genrule''] [(''//a'', [''x''])])
              5000 (Some ''u@h'') ''//...'' [''genrule''] 86400) = Some e
          \<and> entry_targets e = json_of_targets [(''//a'', [''x''])]"
    by blast
  with w j show ?thesis by simp
qed

text \<open>
  Claim C10, as amended. The cache directory is made by the derivation of the cache path,
  which every operation but a read with \<open>ttl \<le> 0\<close> performs: a read with a positive ttl
  and an invalidate leave the directory existing, as a write does, whether or not it
  existed before. A read with \<open>ttl \<le> 0\<close> leaves the file system as it was; no read
  changes a file, and an invalidate removes the one file at the derived path.
\<close>

theorem cache_dir_creation:
  "fst (load_cache H s now h scope kinds ttl) =
     (if ttl \<le> 0 then s else s\<lparr>cache_dir_exists := True\<rparr>)
   \<and> bust_cache H s h scope kinds =
       s\<lparr>cache_dir_exists := True, files := (files s)(cache_file H h scope kinds := None)\<rparr>
   \<and> cache_dir_exists (save_cache H s now h scope kinds t)"
  by (simp add: load_cache_fs bust_cache_def cache_path_def save_cache_fs)

theorem cache_dir_creation_witness:
  "fst (load_cache id fresh_fs 0 None ''//...'' [''genrule''] 0) = fresh_fs
   \<and> cache_dir_exists (fst (load_cache id fresh_fs 0 None ''//...'' [''genrule''] 1))
   \<and> cache_dir_exists (save_cache id fresh_fs 0 None ''//...'' [''genrule''] [])"
  using cache_dir_creation[of id fresh_fs 0 None "''//...''" "[''genrule'']" 0 "[]"]
    cache_dir_creation[of id fresh_fs 0 None "''//...''" "[''genrule'']" 1 "[]"]
  by simp

text \<open>
  With no cache directory, an invalidate and a read with a positive ttl each create it.
\<close>

theorem read_creates_dir_counterexample:
  "\<not> cache_dir_exists fresh_fs
   \<and> cache_dir_exists (bust_cache id fresh_fs None ''//...'' [''genrule''])
   \<and> cache_dir_exists (fst (load_cache id fresh_fs 0 None ''//...'' [''genrule''] 60))"
  by (simp add: fresh_fs_def bust_cache_def load_cache_def cache_path_def)

subsection \<open>Doubles\<close>

lemma pow2_powi: "pow2 k = 2 powi k"
  by (simp add: pow2_def power_int_def power_one_over inverse_eq_divide)

lemma pow2_pos: "0 < pow2 k"
  by (simp add: pow2_def)

lemma pow2_add: "pow2 (j + k) = pow2 j * pow2 k"
  by (simp add: pow2_powi power_int_add)

lemma pow2_less_iff: "pow2 j < pow2 k \<longleftrightarrow> j < k"
proof
  assume "j < k"
  then show "pow2 j < pow2 k" by (simp add: pow2_powi power_int_strict_increasing)
next
  assume l: "pow2 j < pow2 k"
  show "j < k"
  proof (rule ccontr)
    assume "\<not> j < k"
    then have "k \<le> j" by simp
    then have "pow2 k \<le> pow2 j" by (simp add: pow2_powi power_int_increasing)
    with l show False by simp
  qed
qed

lemma pow2_bitlen:
  assumes "0 < n"
  shows "pow2 (bitlen n - 1) \<le> of_int n" and "of_int n < pow2 (bitlen n)"
proof -
  from assms have b: "1 \<le> bitlen n" by (simp add: bitlen_alt_def)
  from bitlen_bounds[OF assms]
  have lo: "2 ^ nat (bitlen n - 1) \<le> n" and hi: "n < 2 ^ nat (bitlen n)" by simp_all
  from lo have "(of_int (2 ^ nat (bitlen n - 1)) :: rat) \<le> of_int n"
    by (simp only: of_int_le_iff)
  then show "pow2 (bitlen n - 1) \<le> of_int n" using b by (simp add: pow2_def)
  from hi have "(of_int n :: rat) < of_int (2 ^ nat (bitlen n))"
    by (simp only: of_int_less_iff)
  then show "of_int n < pow2 (bitlen n)" using b by (simp add: pow2_def)
qed

lemma binade_bounds:
  assumes "0 < a"
  shows "pow2 (binade a) \<le> a \<and> a < pow2 (binade a + 1)"
proof -
  obtain n d where q: "quotient_of a = (n, d)" by (cases "quotient_of a")
  then have d: "0 < d" by (rule quotient_of_denom_pos)
  from q have a: "a = of_int n / of_int d" by (rule quotient_of_div)
  from assms a d have n: "0 < n" by (simp add: zero_less_divide_iff)
  define k where "k = bitlen n - bitlen d"
  have dq: "(0::rat) < of_int d" using d by simp
  have "pow2 (k - 1) * of_int d < pow2 (k - 1) * pow2 (bitlen d)"
    using pow2_bitlen(2)[OF d] pow2_pos[of "k - 1"] by simp
  also have "\<dots> = pow2 (bitlen n - 1)"
    unfolding pow2_add[symmetric] k_def by simp
  also have "\<dots> \<le> of_int n" by (rule pow2_bitlen(1)[OF n])
  finally have lo: "pow2 (k - 1) < a"
    unfolding a using dq by (simp add: pos_less_divide_eq)
  have "of_int n < pow2 (bitlen n)" by (rule pow2_bitlen(2)[OF n])
  also have "\<dots> = pow2 (k + 1) * pow2 (bitlen d - 1)"
    unfolding pow2_add[symmetric] k_def by simp
  also have "\<dots> \<le> pow2 (k + 1) * of_int d"
    using pow2_bitlen(1)[OF d] pow2_pos[of "k + 1"] by simp
  finally have hi: "a < pow2 (k + 1)"
    unfolding a using dq by (simp add: pos_divide_less_eq)
  have b: "binade a = (if pow2 k \<le> a then k else k - 1)"
    by (simp add: binade_def q k_def Let_def)
  show ?thesis
  proof (cases "pow2 k \<le> a")
    case True
    with hi b show ?thesis by simp
  next
    case False
    with lo b show ?thesis by simp
  qed
qed

lemma binade_unique:
  assumes "0 < a" and "pow2 e \<le> a" and "a < pow2 (e + 1)"
  shows "binade a = e"
proof -
  from binade_bounds[OF assms(1)]
  have lo: "pow2 (binade a) \<le> a" and hi: "a < pow2 (binade a + 1)" by simp_all
  from lo assms(3) have "pow2 (binade a) < pow2 (e + 1)" by simp
  then have "binade a < e + 1" by (simp only: pow2_less_iff)
  moreover from assms(2) hi have "pow2 e < pow2 (binade a + 1)" by simp
  then have "e < binade a + 1" by (simp only: pow2_less_iff)
  ultimately show ?thesis by simp
qed


lemma round_half_even_ge: "of_int k \<le> y \<Longrightarrow> k \<le> round_half_even y"
proof -
  assume "of_int k \<le> y"
  then have "k \<le> \<lfloor>y\<rfloor>" by (simp add: le_floor_iff)
  then show ?thesis by (simp add: round_half_even_def Let_def)
qed

lemma round64_overflow:
  assumes "pow2 1024 \<le> x"
  shows "round64 x = PosInf"
proof -
  have x: "0 < x" using assms pow2_pos[of 1024] by simp
  define e where "e = binade x"
  from binade_bounds[OF x] have lo: "pow2 e \<le> x" and hi: "x < pow2 (e + 1)"
    by (simp_all add: e_def)
  from assms hi have "pow2 1024 < pow2 (e + 1)" by simp
  then have e: "1024 \<le> e" by (simp add: pow2_less_iff)
  then have q: "max (e - 52) (- 1074) = e - 52" by simp
  have "pow2 e = pow2 52 * pow2 (e - 52)" unfolding pow2_add[symmetric] by simp
  with lo have "pow2 52 \<le> x / pow2 (e - 52)"
    using pow2_pos[of "e - 52"] by (simp add: pos_le_divide_eq)
  moreover have "pow2 52 = of_int (2 ^ 52)" by (simp add: pow2_def)
  ultimately have "(2 ^ 52 :: int) \<le> round_half_even (x / pow2 (e - 52))"
    by (simp only: round_half_even_ge)
  then have "(of_int (2 ^ 52) :: rat) \<le> of_int (round_half_even (x / pow2 (e - 52)))"
    by (simp only: of_int_le_iff)
  then have "pow2 52 * pow2 (e - 52)
      \<le> of_int (round_half_even (x / pow2 (e - 52))) * pow2 (e - 52)"
    using pow2_pos[of "e - 52"] by (simp add: pow2_def)
  then have "pow2 e \<le> of_int (round_half_even (x / pow2 (e - 52))) * pow2 (e - 52)"
    unfolding pow2_add[symmetric] by simp
  moreover have "pow2 1024 \<le> pow2 e"
    using e pow2_less_iff[of e 1024] by (simp add: not_less[symmetric])
  ultimately have "pow2 1024 \<le> of_int (round_half_even (x / pow2 (e - 52))) * pow2 (e - 52)"
    by simp
  then show ?thesis
    using x by (simp add: round64_def Let_def e_def[symmetric] q)
qed

lemma int_to_float_overflow: "2 ^ 1024 \<le> n \<Longrightarrow> int_to_float n = Inl OverflowError"
proof -
  assume "2 ^ 1024 \<le> n"
  then have "(of_int (2 ^ 1024) :: rat) \<le> of_int n" by (simp only: of_int_le_iff)
  then have "pow2 1024 \<le> of_int n" by (simp add: pow2_def)
  then have "round64 (of_int n) = PosInf" by (rule round64_overflow)
  then show ?thesis by (simp add: int_to_float_def)
qed

lemma round64_pos:
  assumes "0 < x" and "pow2 e \<le> x" and "x < pow2 (e + 1)"
  shows "round64 x =
    (if pow2 1024 \<le> of_int (round_half_even (x / pow2 (max (e - 52) (- 1074))))
          * pow2 (max (e - 52) (- 1074))
     then PosInf
     else Finite (of_int (round_half_even (x / pow2 (max (e - 52) (- 1074))))
          * pow2 (max (e - 52) (- 1074))))"
  using assms(1) by (simp add: round64_def Let_def binade_unique[OF assms])

lemma round64_examples:
  "round64 59 = Finite 59" "round64 61 = Finite 61"
  "round64 9007199254740993 = Finite 9007199254740992"
proof -
  show "round64 59 = Finite 59"
    by (subst round64_pos[of _ 5]) (simp_all add: pow2_def round_half_even_def)
  show "round64 61 = Finite 61"
    by (subst round64_pos[of _ 5]) (simp_all add: pow2_def round_half_even_def)
  have f: "\<lfloor>9007199254740993 / 2 :: rat\<rfloor> = 4503599627370496"
    by (simp add: floor_eq_iff)
  show "round64 9007199254740993 = Finite 9007199254740992"
    by (subst round64_pos[of _ 53]) (simp_all add: pow2_def round_half_even_def f)
qed


text \<open>
  A record whose timestamp is an \<open>int\<close> too large for a double is absent: the
  \<open>OverflowError\<close> of the subtraction is raised inside the \<open>try\<close>.
\<close>

lemma load_try_io_huge_timestamp:
  "load_try_io now ttl
     (Loads (PyDict [(''version'', PyInt 1), (''timestamp'', PyInt (10 ^ 309)),
                     (''targets'', PyDict [])]))
   = Inl OverflowError"
proof -
  have "(2::int) ^ 1024 \<le> 10 ^ 309" by simp
  then have "int_to_float (10 ^ 309) = Inl OverflowError" by (rule int_to_float_overflow)
  then show ?thesis
    by (simp add: load_try_io_def differs_from_int_def CACHE_VERSION_def subtrahend_def)
qed

text \<open>
  The age is a rounded difference. At time \<open>2^53\<close> a record stamped -1 has the exact age
  \<open>2^53 + 1\<close>, which no double is; the subtraction gives \<open>2^53\<close>, and under a ttl of
  \<open>2^53\<close> seconds the record is returned.
\<close>

lemma load_try_io_rounded_age:
  "load_try_io (Finite 9007199254740992) 9007199254740992
     (Loads (PyDict [(''version'', PyInt 1), (''timestamp'', PyFloat (Finite (- 1))),
                     (''targets'', PyDict [])]))
   = Inr (Some \<lparr>loaded_targets = PyDict [], loaded_timestamp = PyFloat (Finite (- 1))\<rparr>)"
  by (simp add: load_try_io_def differs_from_int_def CACHE_VERSION_def subtrahend_def
      round64_examples)

text \<open>
  The scenario of the specification: a record stamped 0 is returned at time 59 and absent
  at time 61 under a ttl of 60.
\<close>

lemma load_try_io_scenario:
  "load_try_io (Finite 59) 60
     (Loads (PyDict [(''version'', PyInt 1), (''timestamp'', PyFloat (Finite 0)),
                     (''targets'', tg)]))
   = Inr (Some \<lparr>loaded_targets = tg, loaded_timestamp = PyFloat (Finite 0)\<rparr>)"
  "load_try_io (Finite 61) 60
     (Loads (PyDict [(''version'', PyInt 1), (''timestamp'', PyFloat (Finite 0)),
                     (''targets'', tg)]))
   = Inr None"
  by (simp_all add: load_try_io_def differs_from_int_def CACHE_VERSION_def subtrahend_def
      round64_examples)

text \<open>A timestamp that is not a number compares as never stale.\<close>

lemma load_try_io_nan_timestamp:
  "load_try_io (Finite now) ttl
     (Loads (PyDict [(''version'', PyInt 1), (''timestamp'', PyFloat NaN),
                     (''targets'', tg)]))
   = Inr (Some \<lparr>loaded_targets = tg, loaded_timestamp = PyFloat NaN\<rparr>)"
  by (simp add: load_try_io_def differs_from_int_def CACHE_VERSION_def subtrahend_def)

subsection \<open>The read when the directory cannot be made\<close>

text \<open>
  Whatever the \<open>try\<close> of \<open>load_cache\<close> meets is turned into an absent result: when the
  directory is there or can be made, a read returns.
\<close>

lemma load_cache_io_returns:
  assumes "dir_present d \<or> \<not> dir_blocked d"
  shows "\<exists>r. load_cache_io H d now h scope kinds ttl =
           Inr (if ttl \<le> 0 then d else d\<lparr>dir_present := True\<rparr>, r)"
  using assms
  by (cases "dir_present d")
    (auto simp: load_cache_io_def cache_path_io_def mkdir_def
      split: option.splits sum.splits)

text \<open>
  Claim C3 has a read return absent when no record is at the derived path and hand no
  error on, and the docstring of \<open>load_cache\<close> promises a \<open>CacheEntry\<close> or \<open>None\<close>. But
  \<open>load_cache\<close> derives the path before its \<open>try\<close>, and the derivation makes the
  directory: when the directory is absent and cannot be made, so that no record can be at
  the path, a read with a positive ttl does not return absent, it raises the \<open>OSError\<close>
  of \<open>mkdir\<close>.
\<close>

theorem load_cache_io_raises:
  assumes "\<not> dir_present d" and "dir_blocked d" and "0 < ttl"
  shows "load_cache_io H d now h scope kinds ttl = Inl OSError"
  using assms by (simp add: load_cache_io_def cache_path_io_def mkdir_def)

theorem load_cache_io_raises_witness:
  "load_cache_io id \<lparr>dir_present = False, dir_blocked = True, stored = Map.empty\<rparr>
     (Finite 100) None ''//...'' [''genrule''] 60 = Inl OSError"
proof -
  let ?d = "\<lparr>dir_present = False, dir_blocked = True, stored = Map.empty\<rparr>"
  have "\<not> dir_present ?d" "dir_blocked ?d" "(0::int) < 60" by simp_all
  then show ?thesis by (rule load_cache_io_raises)
qed

end
